theory Spec2Isabelle
  imports Main "HOL-Library.Word" "HOL-Library.Sublist" "HOL-Library.Multiset"
begin

section \<open>JavaScript values used by the watcher\<close>

text \<open>
  A JavaScript string is a sequence of UTF-16 code units, and \<open>length\<close> counts code
  units. The ellipsis U+2026 and the bullet U+2022 are one code unit each.
\<close>

type_synonym jschar = "16 word"
type_synonym jsstring = "jschar list"

definition lit :: "string \<Rightarrow> jsstring" where
  "lit s = map of_char s"

text \<open>
  A value that is a string or \<open>null\<close>. In a condition, \<open>null\<close> and the empty
  string are falsy, every other string is truthy.
\<close>

definition truthy :: "jsstring option \<Rightarrow> bool" where
  "truthy v = (case v of None \<Rightarrow> False | Some s \<Rightarrow> s \<noteq> [])"

text \<open>A field of a JSON record that is read as a string: absent, \<open>null\<close> or a string.\<close>

datatype jsval = Undefined | Null | Str jsstring

text \<open>The canonical item that \<open>normalize\<close> returns.\<close>

type_synonym ident = int

record item =
  id' :: ident
  ts :: "jsstring option"
  title :: jsstring
  author :: jsstring
  url :: jsval
  message :: jsstring

text \<open>
  The built-ins the watcher calls are not part of the repository. \<open>Date_parse\<close> is the
  time value (milliseconds since the epoch) of \<open>new Date(s)\<close> for a string \<open>s\<close>,
  \<open>None\<close> for an Invalid Date (time value NaN); \<open>Date_toISOString\<close> renders a valid
  time value. \<open>Array_sort_engine\<close> is the arrangement \<open>Array.prototype.sort\<close>
  returns where the language leaves it to the engine.
\<close>

record builtins =
  Date_parse :: "jsstring \<Rightarrow> int option"
  Date_toISOString :: "int \<Rightarrow> jsstring"
  Array_sort_engine :: "(item \<Rightarrow> item \<Rightarrow> int option) \<Rightarrow> item list \<Rightarrow> item list"

text \<open>\<open>new Date(v)\<close> for a string or \<open>null\<close>; \<open>new Date(null)\<close> is the epoch.\<close>

definition new_Date :: "builtins \<Rightarrow> jsstring option \<Rightarrow> int option" where
  "new_Date B v = (case v of None \<Rightarrow> Some 0 | Some s \<Rightarrow> Date_parse B s)"

text \<open>\<open>x > y\<close> on two dates compares their time values; any comparison with NaN is false.\<close>

definition js_gt :: "int option \<Rightarrow> int option \<Rightarrow> bool" where
  "js_gt x y = (case x of None \<Rightarrow> False
                | Some a \<Rightarrow> (case y of None \<Rightarrow> False | Some b \<Rightarrow> b < a))"

text \<open>
  \<open>xs.slice(start, end)\<close> on arrays and strings: a negative index counts from the
  end, and both indices are clamped to the length.
\<close>

definition slice :: "'a list \<Rightarrow> int \<Rightarrow> int \<Rightarrow> 'a list" where
  "slice xs start fin =
     (let len = int (length xs);
          k = (if start < 0 then max (len + start) 0 else min start len);
          final = (if fin < 0 then max (len + fin) 0 else min fin len)
      in take (nat (final - k)) (drop (nat k) xs))"

text \<open>\<open>xs.slice(start)\<close>: the end defaults to the length.\<close>

definition slice_from :: "'a list \<Rightarrow> int \<Rightarrow> 'a list" where
  "slice_from xs start = slice xs start (int (length xs))"

text \<open>
  \<open>Array.from(new Set(xs))\<close>: a Set keeps its elements in insertion order, and adding
  an element it already holds changes nothing.
\<close>

fun Set_add_all :: "'a list \<Rightarrow> 'a list \<Rightarrow> 'a list" where
  "Set_add_all acc [] = acc"
| "Set_add_all acc (x # xs) = Set_add_all (if x \<in> set acc then acc else acc @ [x]) xs"

definition Array_from_Set :: "'a list \<Rightarrow> 'a list" where
  "Array_from_Set xs = Set_add_all [] xs"

section \<open>State\<close>

text \<open>
  \<open>let state = { lastISO: START_ISO || null, seenIds: [] }\<close>. A missing \<open>seenIds\<close>
  is read as the empty array (\<open>state.seenIds || []\<close>), so the field is a list.
\<close>

record state =
  lastISO :: "jsstring option"
  seenIds :: "ident list"

definition updateState :: "builtins \<Rightarrow> jsstring option \<Rightarrow> ident list \<Rightarrow> state \<Rightarrow> state" where
  "updateState B newISO newIds s =
     (let s1 = (if truthy newISO \<and>
                   (\<not> truthy (lastISO s) \<or> js_gt (new_Date B newISO) (new_Date B (lastISO s)))
                then s\<lparr>lastISO := newISO\<rparr> else s)
      in s1\<lparr>seenIds := slice_from (Array_from_Set (seenIds s1 @ newIds)) (- 500)\<rparr>)"

text \<open>A run of commits, one \<open>updateState\<close> call each.\<close>

definition commits :: "builtins \<Rightarrow> state \<Rightarrow> (jsstring option \<times> ident list) list \<Rightarrow> state" where
  "commits B s cs = foldl (\<lambda>s c. updateState B (fst c) (snd c) s) s cs"

section \<open>Canvas helpers\<close>

subsection \<open>Regular-expression replacement\<close>

text \<open>
  \<open>s.replace(/re/g, r)\<close> scans left to right: where the expression matches at the
  current position, the replacement is emitted and the scan resumes after the match;
  otherwise the code unit is copied. A matcher gives the length of the match at the head
  of its argument (never zero for the expressions of this program); the counter is the
  number of code units of the current match still to skip.
\<close>

fun replace_g :: "(jsstring \<Rightarrow> nat option) \<Rightarrow> (jsstring \<Rightarrow> jsstring) \<Rightarrow> nat \<Rightarrow> jsstring \<Rightarrow> jsstring" where
  "replace_g m r k [] = []"
| "replace_g m r (Suc k) (c # cs) = replace_g m r k cs"
| "replace_g m r 0 (c # cs) =
     (case m (c # cs) of
        None \<Rightarrow> c # replace_g m r 0 cs
      | Some n \<Rightarrow> r (take n (c # cs)) @ replace_g m r (n - 1) cs)"

text \<open>
  \<open>\s\<close> in a regular expression and the code units removed by \<open>trim()\<close>:
  WhiteSpace and LineTerminator of ECMAScript.
\<close>

definition is_space :: "jschar \<Rightarrow> bool" where
  "is_space c =
     (c = 0x09 \<or> c = 0x0A \<or> c = 0x0B \<or> c = 0x0C \<or> c = 0x0D \<or> c = 0x20 \<or> c = 0xA0 \<or>
      c = 0x1680 \<or> (0x2000 \<le> c \<and> c \<le> 0x200A) \<or> c = 0x2028 \<or> c = 0x2029 \<or>
      c = 0x202F \<or> c = 0x205F \<or> c = 0x3000 \<or> c = 0xFEFF)"

text \<open>
  A pattern code unit under the \<open>i\<close> flag: a lower-case ASCII letter of the pattern
  also matches its upper-case form; every other code unit matches itself only.
\<close>

definition eq_ci :: "jschar \<Rightarrow> jschar \<Rightarrow> bool" where
  "eq_ci p c = (c = p \<or> (0x61 \<le> p \<and> p \<le> 0x7A \<and> c = p - 0x20))"

text \<open>A literal pattern under the \<open>i\<close> flag: \<open>/<\/p>/i\<close>, \<open>/<li>/i\<close>, \<open>/<\/li>/i\<close>.\<close>

definition match_lit_ci :: "jsstring \<Rightarrow> jsstring \<Rightarrow> nat option" where
  "match_lit_ci p s =
     (if length p \<le> length s \<and> list_all2 eq_ci p (take (length p) s)
      then Some (length p) else None)"

text \<open>
  \<open>/<br\s*\/?>/i\<close>: after \<open><br\<close> the greedy \<open>\s*\<close> takes every white-space code
  unit, then an optional slash, then \<open>>\<close>. Backtracking finds no other match: a code
  unit given back by \<open>\s*\<close> is neither a slash nor \<open>>\<close>.
\<close>

fun match_br :: "jsstring \<Rightarrow> nat option" where
  "match_br (c0 # c1 # c2 # rest) =
     (if c0 = 0x3C \<and> eq_ci 0x62 c1 \<and> eq_ci 0x72 c2 then
        (let ws = takeWhile is_space rest;
             r1 = dropWhile is_space rest;
             sl = (case r1 of [] \<Rightarrow> 0 | d # _ \<Rightarrow> if d = 0x2F then 1 else 0)
         in (case drop sl r1 of
               [] \<Rightarrow> None
             | e # _ \<Rightarrow> if e = 0x3E then Some (3 + length ws + sl + 1) else None))
      else None)"
| "match_br _ = None"

text \<open>
  \<open>/<[^>]+>/\<close>: \<open><\<close>, one or more code units other than \<open>>\<close> (all of them, the
  quantifier is greedy and what it gives back is not \<open>>\<close>), then \<open>>\<close>.
\<close>

fun match_tag :: "jsstring \<Rightarrow> nat option" where
  "match_tag [] = None"
| "match_tag (c # cs) =
     (if c = 0x3C then
        (let body = takeWhile (\<lambda>x. x \<noteq> 0x3E) cs
         in if body \<noteq> [] \<and> length body < length cs then Some (length body + 2) else None)
      else None)"

text \<open>
  \<open>const ents = { '&nbsp;':' ', '&amp;':'&', '&lt;':'<', '&gt;':'>', '&quot;':'"', '&#39;':"'" }\<close>
  and \<open>/&nbsp;|&amp;|&lt;|&gt;|&quot;|&#39;/\<close>, the alternatives tried in this order.
\<close>

definition ents :: "(jsstring \<times> jsstring) list" where
  "ents = [(lit ''&nbsp;'', [0x20]), (lit ''&amp;'', [0x26]), (lit ''&lt;'', [0x3C]),
           (lit ''&gt;'', [0x3E]), (lit ''&quot;'', [0x22]), (lit ''&#39;'', [0x27])]"

definition match_entity :: "jsstring \<Rightarrow> nat option" where
  "match_entity s = map_option length (find (\<lambda>e. prefix e s) (map fst ents))"

text \<open>\<open>m => ents[m] || m\<close>\<close>

definition decode_entity :: "jsstring \<Rightarrow> jsstring" where
  "decode_entity m = (case map_of ents m of None \<Rightarrow> m | Some v \<Rightarrow> if v \<noteq> [] then v else m)"

text \<open>\<open>/\n{3,}/\<close>: a whole run of three or more line feeds.\<close>

definition match_nl3 :: "jsstring \<Rightarrow> nat option" where
  "match_nl3 s = (let n = length (takeWhile (\<lambda>c. c = 0x0A) s) in if 3 \<le> n then Some n else None)"

subsection \<open>split, join, trim\<close>

fun split_on :: "'a \<Rightarrow> 'a list \<Rightarrow> 'a list list" where
  "split_on d [] = [[]]"
| "split_on d (c # cs) =
     (if c = d then [] # split_on d cs
      else (case split_on d cs of [] \<Rightarrow> [[c]] | l # ls \<Rightarrow> (c # l) # ls))"

fun join :: "'a \<Rightarrow> 'a list list \<Rightarrow> 'a list" where
  "join d [] = []"
| "join d [l] = l"
| "join d (l # ls) = l @ d # join d ls"

definition trim :: "jsstring \<Rightarrow> jsstring" where
  "trim s = rev (dropWhile is_space (rev (dropWhile is_space s)))"

subsection \<open>htmlToText\<close>

text \<open>The five tag replacements, in the order of the source.\<close>

definition strip_tags :: "jsstring \<Rightarrow> jsstring" where
  "strip_tags html =
     replace_g match_tag (\<lambda>_. []) 0
       (replace_g (match_lit_ci (lit ''</li>'')) (\<lambda>_. [0x0A]) 0
         (replace_g (match_lit_ci (lit ''<li>'')) (\<lambda>_. [0x2022, 0x20]) 0
           (replace_g (match_lit_ci (lit ''</p>'')) (\<lambda>_. [0x0A]) 0
             (replace_g match_br (\<lambda>_. [0x0A]) 0 html))))"

definition decode_entities :: "jsstring \<Rightarrow> jsstring" where
  "decode_entities t = replace_g match_entity decode_entity 0 t"

text \<open>
  \<open>t.split('\n').map(s => s.trim()).join('\n').replace(/\n{3,}/g, '\n\n').trim()\<close>
\<close>

definition tidy_lines :: "jsstring \<Rightarrow> jsstring" where
  "tidy_lines t =
     trim (replace_g match_nl3 (\<lambda>_. [0x0A, 0x0A]) 0 (join 0x0A (map trim (split_on 0x0A t))))"

definition htmlToText :: "jsstring \<Rightarrow> jsstring" where
  "htmlToText html = (if html = [] then [] else tidy_lines (decode_entities (strip_tags html)))"

subsection \<open>normalize\<close>

definition truthy_val :: "jsval \<Rightarrow> bool" where
  "truthy_val v = (case v of Str s \<Rightarrow> s \<noteq> [] | _ \<Rightarrow> False)"

text \<open>\<open>a || b\<close>\<close>

definition js_or :: "jsval \<Rightarrow> jsval \<Rightarrow> jsval" where
  "js_or a b = (if truthy_val a then a else b)"

text \<open>\<open>a || null\<close>, a string or \<open>null\<close>\<close>

definition or_null :: "jsval \<Rightarrow> jsstring option" where
  "or_null a = (case a of Str s \<Rightarrow> if s \<noteq> [] then Some s else None | _ \<Rightarrow> None)"

text \<open>\<open>a || 'default'\<close>, a string\<close>

definition or_str :: "jsval \<Rightarrow> jsstring \<Rightarrow> jsstring" where
  "or_str a d = (case a of Str s \<Rightarrow> if s \<noteq> [] then s else d | _ \<Rightarrow> d)"

text \<open>A value inside a template literal.\<close>

definition template :: "jsval \<Rightarrow> jsstring" where
  "template v = (case v of Undefined \<Rightarrow> lit ''undefined'' | Null \<Rightarrow> lit ''null'' | Str s \<Rightarrow> s)"

text \<open>The fields of a Canvas announcement that \<open>normalize\<close> reads.\<close>

record announcement =
  ann_id :: ident
  ann_posted_at :: jsval
  ann_created_at :: jsval
  ann_title :: jsval
  ann_author_display_name :: jsval
  ann_user_name :: jsval
  ann_html_url :: jsval
  ann_url :: jsval
  ann_message :: jsval

definition normalize :: "announcement \<Rightarrow> item" where
  "normalize ann =
     \<lparr>id' = ann_id ann,
      ts = or_null (js_or (ann_posted_at ann) (ann_created_at ann)),
      title = or_str (ann_title ann) (lit ''(no title)''),
      author = or_str (js_or (ann_author_display_name ann) (ann_user_name ann)) (lit ''Unknown''),
      url = js_or (ann_html_url ann) (ann_url ann),
      message = htmlToText (or_str (ann_message ann) [])\<rparr>"

subsection \<open>fetchSince\<close>

datatype error = TransportError | RangeError | ChannelError | SendError

text \<open>\<open>new Date(a.ts || 0)\<close>: the time value, \<open>None\<close> for NaN.\<close>

definition sort_key :: "builtins \<Rightarrow> item \<Rightarrow> int option" where
  "sort_key B a = (if truthy (ts a) then new_Date B (ts a) else Some 0)"

text \<open>\<open>(a, b) => new Date(b.ts || 0) - new Date(a.ts || 0)\<close>\<close>

definition compare_ts :: "builtins \<Rightarrow> item \<Rightarrow> item \<Rightarrow> int option" where
  "compare_ts B a b =
     (case sort_key B b of None \<Rightarrow> None
      | Some kb \<Rightarrow> (case sort_key B a of None \<Rightarrow> None | Some ka \<Rightarrow> Some (kb - ka)))"

text \<open>
  \<open>Array.prototype.sort\<close> with a comparator. The language reads a NaN result of the
  comparator as \<open>+0\<close> and requires the sort to be stable. The comparator of this
  program is a difference of two time values: when no comparison among the elements is
  NaN it is consistent, and the result is the one stable sorted arrangement, which
  insertion from the right computes. When a comparison is NaN the arrangement is the
  engine's.
\<close>

definition SortCompare :: "('a \<Rightarrow> 'a \<Rightarrow> int option) \<Rightarrow> 'a \<Rightarrow> 'a \<Rightarrow> int" where
  "SortCompare f x y = (case f x y of None \<Rightarrow> 0 | Some v \<Rightarrow> v)"

fun insert_sorted :: "('a \<Rightarrow> 'a \<Rightarrow> int option) \<Rightarrow> 'a \<Rightarrow> 'a list \<Rightarrow> 'a list" where
  "insert_sorted f x [] = [x]"
| "insert_sorted f x (y # ys) =
     (if SortCompare f x y \<le> 0 then x # y # ys else y # insert_sorted f x ys)"

definition stable_sort :: "('a \<Rightarrow> 'a \<Rightarrow> int option) \<Rightarrow> 'a list \<Rightarrow> 'a list" where
  "stable_sort f xs = foldr (insert_sorted f) xs []"

definition Array_sort :: "builtins \<Rightarrow> (item \<Rightarrow> item \<Rightarrow> int option) \<Rightarrow> item list \<Rightarrow> item list" where
  "Array_sort B f xs =
     (if list_all (\<lambda>x. list_all (\<lambda>y. f x y \<noteq> None) xs) xs then stable_sort f xs
      else Array_sort_engine B f xs)"

text \<open>
  \<open>fetchSince\<close> builds the request, awaits \<open>getAll\<close>, and normalizes and sorts what
  it returns. The outcome of \<open>getAll\<close> for the request (an error, or the records of all
  pages) is the argument \<open>resp\<close>.
\<close>

definition fetchSince :: "builtins \<Rightarrow> error + announcement list \<Rightarrow> error + item list" where
  "fetchSince B resp =
     (case resp of Inl e \<Rightarrow> Inl e
      | Inr raw \<Rightarrow> Inr (Array_sort B (compare_ts B) (map normalize raw)))"

section \<open>Discord\<close>

text \<open>\<open>s.replace(c, r)\<close> with a one-character string pattern: the first occurrence only.\<close>

fun replace_first :: "'a \<Rightarrow> 'a list \<Rightarrow> 'a list \<Rightarrow> 'a list" where
  "replace_first c r [] = []"
| "replace_first c r (x # xs) = (if x = c then r @ xs else x # replace_first c r xs)"

text \<open>
  \<open>a.ts ? new Date(a.ts).toISOString().replace('T',' ').replace('Z',' UTC') : 'unknown time'\<close>;
  \<open>toISOString\<close> throws a RangeError on an Invalid Date.
\<close>

definition when_of :: "builtins \<Rightarrow> jsstring option \<Rightarrow> error + jsstring" where
  "when_of B t =
     (if truthy t then
        (case new_Date B t of
           None \<Rightarrow> Inl RangeError
         | Some v \<Rightarrow> Inr (replace_first 0x5A (lit '' UTC'')
                         (replace_first 0x54 (lit '' '') (Date_toISOString B v))))
      else Inr (lit ''unknown time''))"

definition header_of :: "jsstring \<Rightarrow> item \<Rightarrow> jsstring" where
  "header_of when a =
     lit ''**'' @ title a @ lit ''**'' @ [0x0A] @ lit ''Posted: '' @ when @ lit '' by '' @
     author a @ [0x0A, 0x0A]"

definition linkLine_of :: "item \<Rightarrow> jsstring" where
  "linkLine_of a = [0x0A, 0x0A, 0x3C] @ template (url a) @ [0x3E]"

definition MAX' :: int where
  "MAX' = 2000"

definition buildDiscordMessage :: "builtins \<Rightarrow> item \<Rightarrow> error + jsstring" where
  "buildDiscordMessage B a =
     (case when_of B (ts a) of
        Inl e \<Rightarrow> Inl e
      | Inr when \<Rightarrow>
          (let header = header_of when a;
               linkLine = linkLine_of a;
               maxBody = max 0 (MAX' - int (length header) - int (length linkLine));
               body = (if maxBody < int (length (message a))
                       then slice (message a) 0 (maxBody - 1) @ [0x2026]
                       else message a)
           in Inr (header @ body @ linkLine)))"

text \<open>
  The Discord client: whether \<open>client.channels.fetch\<close> resolves, and whether
  \<open>channel.send(m)\<close> resolves, given the payloads the channel received before.
\<close>

record sink =
  channels_fetch :: bool
  channel_send :: "jsstring list \<Rightarrow> jsstring \<Rightarrow> bool"

text \<open>The watcher's state and the payloads the channel has received.\<close>

record world =
  store :: state
  channel_log :: "jsstring list"

text \<open>
  The loop of \<open>postToDiscord\<close>: it stops at the first exception; what was sent
  before stays sent.
\<close>

fun send_each :: "sink \<Rightarrow> builtins \<Rightarrow> item list \<Rightarrow> jsstring list \<Rightarrow> error option \<times> jsstring list" where
  "send_each K B [] log = (None, log)"
| "send_each K B (a # as) log =
     (case buildDiscordMessage B a of
        Inl e \<Rightarrow> (Some e, log)
      | Inr m \<Rightarrow>
          if channel_send K log m then send_each K B as (log @ [m]) else (Some SendError, log))"

definition postToDiscord :: "sink \<Rightarrow> builtins \<Rightarrow> item list \<Rightarrow> jsstring list \<Rightarrow> error option \<times> jsstring list" where
  "postToDiscord K B items log =
     (if items = [] then (None, log)
      else if \<not> channels_fetch K then (Some ChannelError, log)
      else send_each K B (rev items) log)"

section \<open>Modes\<close>


text \<open>The filter of \<open>pollOnce\<close>, with \<open>seen = new Set(state.seenIds || [])\<close>.\<close>

definition newer :: "builtins \<Rightarrow> state \<Rightarrow> item list \<Rightarrow> item list" where
  "newer B s list =
     filter (\<lambda>a. (\<not> truthy (lastISO s) \<or>
                   (truthy (ts a) \<and> js_gt (new_Date B (ts a)) (new_Date B (lastISO s)))) \<or>
                  id' a \<notin> set (seenIds s)) list"

text \<open>\<open>list[0]?.ts || state.lastISO\<close>\<close>

definition newestTs :: "state \<Rightarrow> item list \<Rightarrow> jsstring option" where
  "newestTs s list =
     (case list of [] \<Rightarrow> lastISO s | a # _ \<Rightarrow> if truthy (ts a) then ts a else lastISO s)"

definition pollOnce :: "sink \<Rightarrow> builtins \<Rightarrow> error + announcement list \<Rightarrow> world \<Rightarrow> error option \<times> world" where
  "pollOnce K B resp w =
     (case fetchSince B resp of
        Inl e \<Rightarrow> (Some e, w)
      | Inr list \<Rightarrow>
          (let new = newer B (store w) list in
           if new \<noteq> [] then
             (case postToDiscord K B new (channel_log w) of
                (Some e, log') \<Rightarrow> (Some e, w\<lparr>channel_log := log'\<rparr>)
              | (None, log') \<Rightarrow>
                  (None, \<lparr>store = updateState B (newestTs (store w) list) (map id' new) (store w),
                          channel_log = log'\<rparr>))
           else (None, w)))"

section \<open>Concrete inputs\<close>

text \<open>
  An excerpt of the real \<open>Date\<close> on four ISO strings, for concrete evaluations:
  the time values of 2024-01-01, 2024-01-02, 2024-01-03 and 1969-12-31, midnight UTC.
  The evaluations below use it on these four only, and sort valid dates only.
\<close>

definition Date_parse_excerpt :: "jsstring \<Rightarrow> int option" where
  "Date_parse_excerpt s =
     (if s = lit ''2024-01-01T00:00:00Z'' then Some 1704067200000
      else if s = lit ''2024-01-02T00:00:00Z'' then Some 1704153600000
      else if s = lit ''2024-01-03T00:00:00Z'' then Some 1704240000000
      else if s = lit ''1969-12-31T00:00:00Z'' then Some (- 86400000)
      else None)"

definition Date_toISOString_excerpt :: "int \<Rightarrow> jsstring" where
  "Date_toISOString_excerpt t =
     (if t = 1704067200000 then lit ''2024-01-01T00:00:00.000Z''
      else if t = 1704153600000 then lit ''2024-01-02T00:00:00.000Z''
      else if t = 1704240000000 then lit ''2024-01-03T00:00:00.000Z''
      else lit ''1969-12-31T00:00:00.000Z'')"

definition JS :: builtins where
  "JS = \<lparr>Date_parse = Date_parse_excerpt, Date_toISOString = Date_toISOString_excerpt,
          Array_sort_engine = (\<lambda>f xs. xs)\<rparr>"

text \<open>Items for concrete evaluations.\<close>

definition example_item :: "ident \<Rightarrow> jsstring option \<Rightarrow> jsstring \<Rightarrow> item" where
  "example_item i t m =
     \<lparr>id' = i, ts = t, title = lit ''T'', author = lit ''A'', url = Str (lit ''u''),
      message = m\<rparr>"

definition long_title_item :: "jsstring \<Rightarrow> item" where
  "long_title_item m =
     \<lparr>id' = 1, ts = None, title = replicate 2000 0x41, author = lit ''A'',
      url = Str (lit ''u''), message = m\<rparr>"

definition T1 :: jsstring where "T1 = lit ''2024-01-01T00:00:00Z''"

definition T2 :: jsstring where "T2 = lit ''2024-01-02T00:00:00Z''"

definition T3 :: jsstring where "T3 = lit ''2024-01-03T00:00:00Z''"

definition T0 :: jsstring where "T0 = lit ''1969-12-31T00:00:00Z''"

definition example_announcement :: "ident \<Rightarrow> jsval \<Rightarrow> jsstring \<Rightarrow> announcement" where
  "example_announcement i posted m =
     \<lparr>ann_id = i, ann_posted_at = posted, ann_created_at = Undefined, ann_title = Str (lit ''T''),
      ann_author_display_name = Str (lit ''A''), ann_user_name = Undefined,
      ann_html_url = Str (lit ''u''), ann_url = Undefined, ann_message = Str m\<rparr>"

definition flaky_sink :: sink where
  "flaky_sink = \<lparr>channels_fetch = True, channel_send = (\<lambda>log m. length log < 1)\<rparr>"



section \<open>The novelty rule in the specification's words\<close>

text \<open>
  An item is selected if no prior watermark timestamp exists, or the item's timestamp
  exists and is strictly greater than the watermark timestamp, or the item's id is
  absent from the recently-seen ids.
\<close>

definition has_watermark :: "state \<Rightarrow> bool" where
  "has_watermark s = truthy (lastISO s)"

definition later_than_watermark :: "builtins \<Rightarrow> state \<Rightarrow> item \<Rightarrow> bool" where
  "later_than_watermark B s a =
     (truthy (ts a) \<and> js_gt (new_Date B (ts a)) (new_Date B (lastISO s)))"

definition unseen :: "state \<Rightarrow> item \<Rightarrow> bool" where
  "unseen s a = (id' a \<notin> set (seenIds s))"

definition selected :: "builtins \<Rightarrow> state \<Rightarrow> item \<Rightarrow> bool" where
  "selected B s a = ((\<not> has_watermark s \<or> later_than_watermark B s a) \<or> unseen s a)"

section \<open>Predicates used in the properties\<close>


definition dated_after_epoch :: "builtins \<Rightarrow> item \<Rightarrow> bool" where
  "dated_after_epoch B a = (truthy (ts a) \<longrightarrow> js_gt (new_Date B (ts a)) (Some 0))"

definition missing_last :: "item list \<Rightarrow> bool" where
  "missing_last xs = sorted_wrt (\<lambda>a b. truthy (ts a) \<or> \<not> truthy (ts b)) xs"

definition newest_first :: "builtins \<Rightarrow> item list \<Rightarrow> bool" where
  "newest_first B xs = sorted_wrt (\<lambda>a b. \<not> js_gt (sort_key B b) (sort_key B a)) xs"

definition valid_key :: "builtins \<Rightarrow> item \<Rightarrow> bool" where
  "valid_key B a = (sort_key B a \<noteq> None)"

text \<open>
  One commit either keeps the watermark or replaces it by a strictly later one; a
  watermark that is set stays set.
\<close>

definition advanced :: "builtins \<Rightarrow> jsstring option \<Rightarrow> jsstring option \<Rightarrow> bool" where
  "advanced B old new =
     (truthy new \<and> (new = old \<or> js_gt (new_Date B new) (new_Date B old)))"

section \<open>Tags and entity codes in a text\<close>

text \<open>
  A markup tag is what the expression \<open><[^>]+>\<close> matches: \<open><\<close>, one or more
  code units other than \<open>>\<close>, and \<open>>\<close>. A text has a tag, or an entity code,
  when one occurs in it as a contiguous part. \<open>occurs m\<close> says that the matcher
  \<open>m\<close> matches at some position.
\<close>

definition is_tag :: "jsstring \<Rightarrow> bool" where
  "is_tag w = (\<exists>body. w = 0x3C # body @ [0x3E] \<and> body \<noteq> [] \<and> 0x3E \<notin> set body)"

definition has_tag :: "jsstring \<Rightarrow> bool" where
  "has_tag xs = (\<exists>w. is_tag w \<and> sublist w xs)"

definition has_entity :: "jsstring \<Rightarrow> bool" where
  "has_entity xs = (\<exists>e\<in>set (map fst ents). sublist e xs)"

fun occurs :: "(jsstring \<Rightarrow> nat option) \<Rightarrow> jsstring \<Rightarrow> bool" where
  "occurs m [] = False"
| "occurs m (c # cs) = (m (c # cs) \<noteq> None \<or> occurs m cs)"

text \<open>Every match in a text is non-empty and its replacement is non-empty and avoids S.\<close>

definition repl_avoids :: "(jsstring \<Rightarrow> nat option) \<Rightarrow> (jsstring \<Rightarrow> jsstring) \<Rightarrow> jschar set \<Rightarrow> jsstring \<Rightarrow> bool" where
  "repl_avoids m r S t =
     (\<forall>u n. suffix u t \<longrightarrow> m u = Some n \<longrightarrow>
        0 < n \<and> r (take n u) \<noteq> [] \<and> set (r (take n u)) \<inter> S = {})"

text \<open>Deleting code units that satisfy P.\<close>

inductive dels :: "('a \<Rightarrow> bool) \<Rightarrow> 'a list \<Rightarrow> 'a list \<Rightarrow> bool" for P where
  dels_Nil: "dels P [] []"
| dels_Keep: "dels P xs ys \<Longrightarrow> dels P (x # xs) (x # ys)"
| dels_Drop: "P x \<Longrightarrow> dels P xs ys \<Longrightarrow> dels P (x # xs) ys"

text \<open>
  An encoded tag: \<open><\<close> or \<open>&lt;\<close>, then a non-empty text without \<open>>\<close> and
  without \<open>&gt;\<close>, then \<open>>\<close> or \<open>&gt;\<close>. An encoded entity code:
  \<open>&amp;\<close> directly followed by what follows the ampersand in one of the six codes.
\<close>

definition encoded_tag :: "jsstring \<Rightarrow> bool" where
  "encoded_tag w =
     (\<exists>lt body gt. w = lt @ body @ gt \<and> (lt = [0x3C] \<or> lt = lit ''&lt;'') \<and>
        (gt = [0x3E] \<or> gt = lit ''&gt;'') \<and>
        body \<noteq> [] \<and> 0x3E \<notin> set body \<and> \<not> sublist (lit ''&gt;'') body)"

definition has_encoded_tag :: "jsstring \<Rightarrow> bool" where
  "has_encoded_tag t = (\<exists>w. encoded_tag w \<and> sublist w t)"

definition has_encoded_entity :: "jsstring \<Rightarrow> bool" where
  "has_encoded_entity t = (\<exists>e\<in>set (map fst ents). sublist (lit ''&amp;'' @ tl e) t)"

section \<open>Properties of the state store\<close>

lemma slice_from_neg_drop: "0 < n \<Longrightarrow> slice_from xs (- n) = drop (length xs - nat n) xs"
proof -
  assume n: "0 < n"
  let ?len = "int (length xs)"
  have k: "nat (max (?len + - n) 0) = length xs - nat n"
    using n by (simp add: max_def) linarith
  from n have "- n < 0" by simp
  then have "slice_from xs (- n) =
      take (nat (?len - max (?len + - n) 0)) (drop (nat (max (?len + - n) 0)) xs)"
    by (simp add: slice_from_def slice_def Let_def)
  also have "\<dots> = drop (length xs - nat n) xs"
    unfolding k using n by (simp add: max_def)
  finally show ?thesis .
qed

lemma length_slice_from_neg: "0 < n \<Longrightarrow> length (slice_from xs (- n)) \<le> nat n"
  by (simp add: slice_from_neg_drop)

lemma seenIds_updateState:
  "seenIds (updateState B t ids s) =
     slice_from (Array_from_Set (seenIds s @ ids)) (- 500)"
  by (simp add: updateState_def Let_def)

lemma lastISO_updateState:
  "lastISO (updateState B t ids s) =
     (if truthy t \<and> (\<not> truthy (lastISO s) \<or> js_gt (new_Date B t) (new_Date B (lastISO s)))
      then t else lastISO s)"
  by (auto simp: updateState_def Let_def)

lemma commits_Nil [simp]: "commits B s [] = s"
  by (simp add: commits_def)

lemma commits_Cons [simp]:
  "commits B s (c # cs) = commits B (updateState B (fst c) (snd c) s) cs"
  by (simp add: commits_def)

lemma commits_snoc:
  "commits B s (cs @ [c]) = updateState B (fst c) (snd c) (commits B s cs)"
  by (simp add: commits_def)

lemma js_gt_trans: "js_gt x y \<Longrightarrow> js_gt y z \<Longrightarrow> js_gt x z"
  by (auto simp: js_gt_def split: option.splits)

lemma js_gt_asym: "js_gt x y \<Longrightarrow> \<not> js_gt y x"
  by (auto simp: js_gt_def split: option.splits)

lemma js_gt_irrefl: "\<not> js_gt x x"
  by (auto simp: js_gt_def split: option.splits)

lemma advanced_refl: "truthy old \<Longrightarrow> advanced B old old"
  by (simp add: advanced_def)

lemma advanced_trans: "advanced B a b \<Longrightarrow> advanced B b c \<Longrightarrow> advanced B a c"
  by (auto simp: advanced_def dest: js_gt_trans)

lemma advanced_updateState:
  "truthy (lastISO s) \<Longrightarrow> advanced B (lastISO s) (lastISO (updateState B t ids s))"
  by (simp add: lastISO_updateState advanced_def)

lemma advanced_commits:
  "truthy (lastISO s) \<Longrightarrow> advanced B (lastISO s) (lastISO (commits B s cs))"
proof (induction cs rule: rev_induct)
  case Nil
  then show ?case by (simp add: advanced_refl)
next
  case (snoc c cs)
  then have a: "advanced B (lastISO s) (lastISO (commits B s cs))" by simp
  then have "truthy (lastISO (commits B s cs))" by (simp add: advanced_def)
  then have "advanced B (lastISO (commits B s cs)) (lastISO (commits B s (cs @ [c])))"
    unfolding commits_snoc by (rule advanced_updateState)
  with a show ?case by (rule advanced_trans)
qed

text \<open>
  C3. Once the watermark \<open>lastISO\<close> is set, any run of commits (calls of
  \<open>updateState\<close> with any new timestamps and id lists) leaves it set, and the resulting
  watermark is the old one or a strictly later instant; the old watermark is never later
  than the new one.
\<close>

theorem updateState_watermark_monotone:
  assumes "truthy (lastISO s)"
  shows "truthy (lastISO (commits B s cs)) \<and>
         (lastISO (commits B s cs) = lastISO s \<or>
          js_gt (new_Date B (lastISO (commits B s cs))) (new_Date B (lastISO s))) \<and>
         \<not> js_gt (new_Date B (lastISO s)) (new_Date B (lastISO (commits B s cs)))"
proof -
  have a: "advanced B (lastISO s) (lastISO (commits B s cs))"
    using assms by (rule advanced_commits)
  then show ?thesis
    by (auto simp: advanced_def js_gt_irrefl dest: js_gt_asym)
qed

theorem updateState_watermark_monotone_witness:
  "truthy (lastISO \<lparr>lastISO = Some (lit ''2024-01-01T00:00:00Z''), seenIds = []\<rparr>) \<and>
   lastISO (commits JS \<lparr>lastISO = Some (lit ''2024-01-01T00:00:00Z''), seenIds = []\<rparr>
           [(Some (lit ''2024-01-02T00:00:00Z''), [1])]) = Some (lit ''2024-01-02T00:00:00Z'') \<and>
   js_gt (new_Date JS (Some (lit ''2024-01-02T00:00:00Z'')))
         (new_Date JS (Some (lit ''2024-01-01T00:00:00Z''))) \<and>
   \<not> js_gt (new_Date JS (Some (lit ''2024-01-01T00:00:00Z'')))
           (new_Date JS (Some (lit ''2024-01-02T00:00:00Z'')))"
  using updateState_watermark_monotone
    [of "\<lparr>lastISO = Some (lit ''2024-01-01T00:00:00Z''), seenIds = []\<rparr>" JS
        "[(Some (lit ''2024-01-02T00:00:00Z''), [1])]"]
  by (simp add: lastISO_updateState truthy_def lit_def new_Date_def JS_def
        Date_parse_excerpt_def js_gt_def)


lemma distinct_Set_add_all: "distinct acc \<Longrightarrow> distinct (Set_add_all acc xs)"
  by (induction acc xs rule: Set_add_all.induct) auto

lemma prefix_Set_add_all: "prefix acc (Set_add_all acc xs)"
  by (induction acc xs rule: Set_add_all.induct) (auto dest: append_prefixD)

lemma length_seenIds_updateState: "length (seenIds (updateState B t ids s)) \<le> 500"
  using length_slice_from_neg [of 500] by (simp add: seenIds_updateState)

lemma length_seenIds_commits:
  "length (seenIds (commits B (updateState B t ids s) cs)) \<le> 500"
proof (induction cs rule: rev_induct)
  case Nil
  show ?case by (simp add: length_seenIds_updateState)
next
  case (snoc c cs)
  show ?case unfolding commits_snoc by (rule length_seenIds_updateState)
qed

text \<open>
  C6. After one commit, and after any further run of commits, from any state,
  \<open>seenIds\<close> holds at most 500 ids. A commit keeps the last 500 entries of the
  insertion-ordered set of the old ids followed by the new ones: what is evicted is the
  front of that sequence, the ids inserted earliest.
\<close>

theorem updateState_seenIds_bounded:
  "length (seenIds (updateState B t ids s)) \<le> 500 \<and>
   seenIds (updateState B t ids s) =
     drop (length (Array_from_Set (seenIds s @ ids)) - 500) (Array_from_Set (seenIds s @ ids)) \<and>
   length (seenIds (commits B (updateState B t ids s) cs)) \<le> 500"
  using slice_from_neg_drop [of 500 "Array_from_Set (seenIds s @ ids)"]
  by (simp add: length_seenIds_updateState length_seenIds_commits seenIds_updateState)

lemma Set_add_all_distinct: "distinct (acc @ xs) \<Longrightarrow> Set_add_all acc xs = acc @ xs"
  by (induction acc xs rule: Set_add_all.induct) auto

lemma Array_from_Set_distinct: "distinct xs \<Longrightarrow> Array_from_Set xs = xs"
  by (simp add: Array_from_Set_def Set_add_all_distinct)

lemma Array_from_Set_501: "Array_from_Set ([1..500] @ [501::int]) = [1..500] @ [501]"
  by (rule Array_from_Set_distinct) simp

lemma drop_1_upto_500: "drop (Suc 0) [1..500::int] = [2..500]"
  by (subst upto_rec1) simp_all

theorem updateState_seenIds_bounded_witness:
  "length (seenIds (updateState JS None [501] \<lparr>lastISO = None, seenIds = [1..500]\<rparr>)) \<le> 500 \<and>
   seenIds (updateState JS None [501] \<lparr>lastISO = None, seenIds = [1..500]\<rparr>) = [2..500] @ [501]"
  using updateState_seenIds_bounded
    [of JS None "[501]" "\<lparr>lastISO = None, seenIds = [1..500]\<rparr>" "[]"]
  by (simp add: Array_from_Set_501 drop_1_upto_500)

section \<open>Properties of the novelty filter\<close>

text \<open>
  C2. For every fetched list and every state, the filter of \<open>pollOnce\<close> selects
  exactly the items that the rule of the specification selects (no watermark, or a
  present timestamp strictly later than the watermark, or an id not among the seen ids),
  and what it selects is a subsequence of the fetched list, in the same order.
\<close>

theorem newer_selects:
  "newer B s list = filter (selected B s) list \<and>
   subseq (newer B s list) list \<and>
   (\<forall>a. a \<in> set (newer B s list) \<longleftrightarrow> a \<in> set list \<and> selected B s a)"
proof -
  have "newer B s list = filter (selected B s) list"
    unfolding newer_def
    by (rule filter_cong)
       (auto simp: selected_def has_watermark_def later_than_watermark_def unseen_def)
  then show ?thesis by simp
qed

theorem newer_selects_witness:
  "newer JS \<lparr>lastISO = Some (lit ''2024-01-02T00:00:00Z''), seenIds = [2]\<rparr>
     [example_item 3 (Some (lit ''2024-01-03T00:00:00Z'')) [], example_item 2 (Some (lit ''2024-01-02T00:00:00Z'')) []]
   = [example_item 3 (Some (lit ''2024-01-03T00:00:00Z'')) []] \<and>
   selected JS \<lparr>lastISO = Some (lit ''2024-01-02T00:00:00Z''), seenIds = [2]\<rparr> (example_item 3 (Some (lit ''2024-01-03T00:00:00Z'')) []) \<and>
   \<not> selected JS \<lparr>lastISO = Some (lit ''2024-01-02T00:00:00Z''), seenIds = [2]\<rparr> (example_item 2 (Some (lit ''2024-01-02T00:00:00Z'')) [])"
  using newer_selects [of JS "\<lparr>lastISO = Some (lit ''2024-01-02T00:00:00Z''), seenIds = [2]\<rparr>"
     "[example_item 3 (Some (lit ''2024-01-03T00:00:00Z'')) [], example_item 2 (Some (lit ''2024-01-02T00:00:00Z'')) []]"]
  by (simp add: selected_def has_watermark_def later_than_watermark_def unseen_def example_item_def
       truthy_def lit_def new_Date_def JS_def Date_parse_excerpt_def js_gt_def)

section \<open>Properties of the message formatter\<close>

lemma slice_0_nonneg: "0 \<le> n \<Longrightarrow> slice xs 0 n = take (nat n) xs"
  by (simp add: slice_def Let_def min_def)

lemma slice_0_neg: "n < 0 \<Longrightarrow> slice xs 0 n = take (length xs - nat (- n)) xs"
proof -
  assume n: "n < 0"
  have "nat (max (int (length xs) + n) 0) = length xs - nat (- n)"
    using n by (simp add: max_def) linarith
  with n show ?thesis by (simp add: slice_def Let_def)
qed

lemma buildDiscordMessage_Inr:
  assumes "when_of B (ts a) = Inr w"
    and "mb = max 0 (MAX' - int (length (header_of w a)) - int (length (linkLine_of a)))"
  shows "buildDiscordMessage B a =
     Inr (header_of w a @
          (if mb < int (length (message a)) then slice (message a) 0 (mb - 1) @ [0x2026]
           else message a) @ linkLine_of a)"
  using assms by (simp only: buildDiscordMessage_def Let_def sum.case)

text \<open>
  C4 (amended). When the timestamp renders and header and footer leave room (together
  shorter than 2000 code units, or exactly 2000 with an empty body), the formatter
  returns a payload of at most 2000 code units. A body longer than the room left is cut
  to one unit less than that room, followed by the ellipsis and then the footer, and the
  payload is exactly 2000 units long; a shorter body is kept whole.
\<close>

theorem buildDiscordMessage_length:
  assumes w: "when_of B (ts a) = Inr w"
    and room: "length (header_of w a) + length (linkLine_of a) < 2000 \<or>
               (length (header_of w a) + length (linkLine_of a) = 2000 \<and> message a = [])"
  shows "\<exists>m. buildDiscordMessage B a = Inr m \<and> length m \<le> 2000 \<and>
           (if 2000 - (length (header_of w a) + length (linkLine_of a)) < length (message a)
            then m = header_of w a @
                     take (2000 - (length (header_of w a) + length (linkLine_of a)) - 1) (message a) @
                     [0x2026] @ linkLine_of a \<and> length m = 2000
            else m = header_of w a @ message a @ linkLine_of a)"
proof -
  let ?h = "length (header_of w a)" and ?l = "length (linkLine_of a)"
  let ?n = "2000 - (?h + ?l)"
  have mb: "int ?n = max 0 (MAX' - int ?h - int ?l)"
    using room by (auto simp: MAX'_def)
  note eq = buildDiscordMessage_Inr [OF w mb]
  show ?thesis
  proof (cases "?n < length (message a)")
    case True
    with room have pos: "0 < ?n" by auto
    have sl: "slice (message a) 0 (int ?n - 1) = take (?n - 1) (message a)"
    proof -
      have "nat (int ?n - 1) = ?n - 1" by linarith
      moreover have "0 \<le> int ?n - 1" using pos by linarith
      ultimately show ?thesis by (simp add: slice_0_nonneg)
    qed
    have "buildDiscordMessage B a =
        Inr (header_of w a @ (take (?n - 1) (message a) @ [0x2026]) @ linkLine_of a)"
      unfolding eq sl using True by simp
    with True pos show ?thesis by (auto simp: min_def)
  next
    case False
    then have "buildDiscordMessage B a = Inr (header_of w a @ message a @ linkLine_of a)"
      unfolding eq by simp
    with False room show ?thesis by auto
  qed
qed

theorem buildDiscordMessage_length_witness:
  "when_of JS (ts (example_item 1 None (replicate 5000 0x78))) = Inr (lit ''unknown time'') \<and>
   length (header_of (lit ''unknown time'') (example_item 1 None (replicate 5000 0x78))) +
     length (linkLine_of (example_item 1 None (replicate 5000 0x78))) = 38 \<and>
   buildDiscordMessage JS (example_item 1 None (replicate 5000 0x78)) =
     Inr (header_of (lit ''unknown time'') (example_item 1 None (replicate 5000 0x78)) @
          replicate 1961 0x78 @ [0x2026] @ linkLine_of (example_item 1 None (replicate 5000 0x78)))"
  using buildDiscordMessage_length [of JS "example_item 1 None (replicate 5000 0x78)" "lit ''unknown time''"]
  by (simp add: when_of_def truthy_def example_item_def header_of_def linkLine_of_def lit_def template_def)

text \<open>
  Header and footer are never shortened: with a title of 2000 code units and an empty
  body the payload is 2037 units long.
\<close>

theorem buildDiscordMessage_length_counterexample:
  "buildDiscordMessage JS (long_title_item []) =
     Inr (header_of (lit ''unknown time'') (long_title_item []) @ linkLine_of (long_title_item [])) \<and>
   length (header_of (lit ''unknown time'') (long_title_item []) @ linkLine_of (long_title_item [])) = 2037"
  by (simp add: buildDiscordMessage_def when_of_def truthy_def Let_def
        long_title_item_def header_of_def linkLine_of_def lit_def template_def MAX'_def)

text \<open>
  C5. With the same title and the body \<open>ab\<close> the room left is zero, and
  \<open>slice(0, maxBody - 1)\<close> is \<open>slice(0, -1)\<close>, every code unit but the last:
  the payload carries the body \<open>a\<close> and the ellipsis between header and footer.
\<close>

theorem buildDiscordMessage_no_room_keeps_body:
  "buildDiscordMessage JS (long_title_item (lit ''ab'')) =
     Inr (header_of (lit ''unknown time'') (long_title_item (lit ''ab'')) @ [0x61, 0x2026] @ linkLine_of (long_title_item (lit ''ab'')))"
  by (simp add: buildDiscordMessage_def when_of_def truthy_def Let_def
        long_title_item_def header_of_def linkLine_of_def lit_def template_def MAX'_def slice_def)

section \<open>Properties of the delivery loop and the fetcher\<close>

lemma send_each_None:
  "send_each K B as log = (None, log') \<Longrightarrow>
     \<exists>ms. map (buildDiscordMessage B) as = map Inr ms \<and> log' = log @ ms"
proof (induction as arbitrary: log)
  case Nil
  then show ?case by simp
next
  case (Cons a as)
  from Cons.prems obtain m where m: "buildDiscordMessage B a = Inr m"
    and rest: "send_each K B as (log @ [m]) = (None, log')"
    by (auto split: sum.splits if_splits)
  from Cons.IH [OF rest] obtain ms
    where "map (buildDiscordMessage B) as = map Inr ms" "log' = (log @ [m]) @ ms" by blast
  with m have "map (buildDiscordMessage B) (a # as) = map Inr (m # ms) \<and> log' = log @ (m # ms)"
    by simp
  then show ?case by blast
qed


lemma postToDiscord_None:
  "postToDiscord K B items log = (None, log') \<Longrightarrow>
     \<exists>ms. map (buildDiscordMessage B) (rev items) = map Inr ms \<and> log' = log @ ms"
  by (cases "items = []") (auto simp: postToDiscord_def dest: send_each_None split: if_splits)


lemma pollOnce_ok:
  assumes "pollOnce K B resp w = (None, w')"
  shows "\<exists>list. fetchSince B resp = Inr list \<and>
     (if newer B (store w) list = [] then w' = w
      else (\<exists>log'. postToDiscord K B (newer B (store w) list) (channel_log w) = (None, log') \<and>
            w' = \<lparr>store = updateState B (newestTs (store w) list) (map id' (newer B (store w) list)) (store w),
                  channel_log = log'\<rparr>))"
  using assms
  by (auto simp: pollOnce_def Let_def split: sum.splits prod.splits option.splits if_splits)

lemma pollOnce_error:
  assumes "pollOnce K B resp w = (Some e, w')"
  shows "store w' = store w"
  using assms
  by (auto simp: pollOnce_def Let_def split: sum.splits prod.splits option.splits if_splits)

text \<open>
  C1. A poll cycle that ends in an error (a failed fetch, a channel that does not
  resolve, a timestamp that does not render, a send that fails, at any position of the
  batch) leaves the state as it was; so does a cycle whose filter selects nothing, which
  also sends nothing. Whenever the state after the cycle differs from the state before,
  the cycle ended without error and the channel received the payloads of all selected
  items, oldest first.
\<close>

theorem pollOnce_commit_after_sends:
  assumes "pollOnce K B resp w = (r, w')"
  shows "(r \<noteq> None \<longrightarrow> store w' = store w) \<and>
         (\<forall>list. fetchSince B resp = Inr list \<and> newer B (store w) list = [] \<longrightarrow> r = None \<and> w' = w) \<and>
         (store w' \<noteq> store w \<longrightarrow>
            (\<exists>list ms. fetchSince B resp = Inr list \<and> r = None \<and>
               map (buildDiscordMessage B) (rev (newer B (store w) list)) = map Inr ms \<and>
               channel_log w' = channel_log w @ ms))"
proof (intro conjI impI allI)
  assume "r \<noteq> None"
  then obtain e where "r = Some e" by auto
  with assms show "store w' = store w" by (auto dest: pollOnce_error)
next
  fix list assume "fetchSince B resp = Inr list \<and> newer B (store w) list = []"
  with assms show "r = None" "w' = w" by (auto simp: pollOnce_def Let_def)
next
  assume ch: "store w' \<noteq> store w"
  have r: "r = None"
  proof (cases r)
    case (Some e)
    with assms ch show ?thesis by (auto dest: pollOnce_error)
  qed simp
  with assms have p: "pollOnce K B resp w = (None, w')" by simp
  from pollOnce_ok [OF p] obtain list where f: "fetchSince B resp = Inr list"
    and c: "if newer B (store w) list = [] then w' = w
      else (\<exists>log'. postToDiscord K B (newer B (store w) list) (channel_log w) = (None, log') \<and>
            w' = \<lparr>store = updateState B (newestTs (store w) list) (map id' (newer B (store w) list)) (store w),
                  channel_log = log'\<rparr>)" by blast
  from c ch obtain log' where
    post: "postToDiscord K B (newer B (store w) list) (channel_log w) = (None, log')"
    and w': "channel_log w' = log'"
    by (auto split: if_splits)
  from postToDiscord_None [OF post] w' obtain ms where
    "map (buildDiscordMessage B) (rev (newer B (store w) list)) = map Inr ms"
    "channel_log w' = channel_log w @ ms" by auto
  with f r show "\<exists>list ms. fetchSince B resp = Inr list \<and> r = None \<and>
               map (buildDiscordMessage B) (rev (newer B (store w) list)) = map Inr ms \<and>
               channel_log w' = channel_log w @ ms" by blast
qed

lemma normalize_example_Str:
  "t \<noteq> [] \<Longrightarrow> normalize (example_announcement i (Str t) []) = example_item i (Some t) []"
  by (simp add: normalize_def example_announcement_def example_item_def js_or_def truthy_val_def
        or_null_def or_str_def htmlToText_def lit_def)

lemma normalize_example_Null:
  "normalize (example_announcement i Null []) = example_item i None []"
  by (simp add: normalize_def example_announcement_def example_item_def js_or_def truthy_val_def
        or_null_def or_str_def htmlToText_def lit_def)

lemma T_nonempty: "T1 \<noteq> []" "T2 \<noteq> []" "T3 \<noteq> []"
  by (simp_all add: T1_def T2_def T3_def lit_def)

lemma new_Date_T:
  "new_Date JS (Some T1) = Some 1704067200000"
  "new_Date JS (Some T2) = Some 1704153600000"
  "new_Date JS (Some T3) = Some 1704240000000"
  by (simp_all add: new_Date_def JS_def Date_parse_excerpt_def T1_def T2_def T3_def lit_def)

lemma when_of_T:
  "when_of JS (Some T1) = Inr (lit ''2024-01-01 00:00:00.000 UTC'')"
  "when_of JS (Some T2) = Inr (lit ''2024-01-02 00:00:00.000 UTC'')"
  "when_of JS (Some T3) = Inr (lit ''2024-01-03 00:00:00.000 UTC'')"
  by (simp_all add: when_of_def truthy_def T_nonempty new_Date_T)
     (simp_all add: JS_def Date_toISOString_excerpt_def lit_def)


lemma fetch_two:
  "fetchSince JS (Inr [example_announcement 1 (Str T1) [], example_announcement 2 (Str T2) []]) =
     Inr [example_item 2 (Some T2) [], example_item 1 (Some T1) []]"
  by (simp add: fetchSince_def Array_sort_def stable_sort_def
        normalize_example_Str T_nonempty SortCompare_def
        compare_ts_def sort_key_def example_item_def truthy_def new_Date_T)

lemma build_T1:
  "buildDiscordMessage JS (example_item 1 (Some T1) []) =
     Inr (lit ''**T**'' @ [0x0A] @ lit ''Posted: 2024-01-01 00:00:00.000 UTC by A'' @ [0x0A, 0x0A, 0x0A, 0x0A] @ lit ''<u>'')"
  by (simp add: buildDiscordMessage_def example_item_def when_of_T
       header_of_def linkLine_of_def lit_def template_def MAX'_def)

lemma build_T2:
  "buildDiscordMessage JS (example_item 2 (Some T2) []) =
     Inr (lit ''**T**'' @ [0x0A] @ lit ''Posted: 2024-01-02 00:00:00.000 UTC by A'' @ [0x0A, 0x0A, 0x0A, 0x0A] @ lit ''<u>'')"
  by (simp add: buildDiscordMessage_def example_item_def when_of_T
       header_of_def linkLine_of_def lit_def template_def MAX'_def)

theorem pollOnce_commit_after_sends_witness:
  "pollOnce flaky_sink JS (Inr [example_announcement 1 (Str T1) [], example_announcement 2 (Str T2) []])
      \<lparr>store = \<lparr>lastISO = None, seenIds = []\<rparr>, channel_log = []\<rparr> =
     (Some SendError,
      \<lparr>store = \<lparr>lastISO = None, seenIds = []\<rparr>,
       channel_log = [lit ''**T**'' @ [0x0A] @ lit ''Posted: 2024-01-01 00:00:00.000 UTC by A'' @ [0x0A, 0x0A, 0x0A, 0x0A] @ lit ''<u>'']\<rparr>)"
  using pollOnce_commit_after_sends [of flaky_sink JS
      "Inr [example_announcement 1 (Str T1) [], example_announcement 2 (Str T2) []]"
      "\<lparr>store = \<lparr>lastISO = None, seenIds = []\<rparr>, channel_log = []\<rparr>"
      "fst (pollOnce flaky_sink JS (Inr [example_announcement 1 (Str T1) [], example_announcement 2 (Str T2) []])
      \<lparr>store = \<lparr>lastISO = None, seenIds = []\<rparr>, channel_log = []\<rparr>)"
      "snd (pollOnce flaky_sink JS (Inr [example_announcement 1 (Str T1) [], example_announcement 2 (Str T2) []])
      \<lparr>store = \<lparr>lastISO = None, seenIds = []\<rparr>, channel_log = []\<rparr>)"]
  by (simp add: pollOnce_def fetch_two newer_def truthy_def postToDiscord_def flaky_sink_def build_T1 build_T2)








lemma T0_nonempty: "T0 \<noteq> []" by (simp add: T0_def lit_def)

lemma new_Date_T0: "new_Date JS (Some T0) = Some (- 86400000)"
  by (simp add: new_Date_def JS_def Date_parse_excerpt_def T0_def lit_def)

lemma sort_key_example:
  "sort_key JS (example_item i (Some T0) m) = Some (- 86400000)"
  "sort_key JS (example_item i (Some T1) m) = Some 1704067200000"
  "sort_key JS (example_item i (Some T2) m) = Some 1704153600000"
  "sort_key JS (example_item i (Some T3) m) = Some 1704240000000"
  "sort_key JS (example_item i None m) = Some 0"
  by (simp_all add: sort_key_def example_item_def truthy_def T_nonempty T0_nonempty new_Date_T new_Date_T0)






lemma set_insert_sorted: "set (insert_sorted f x xs) = insert x (set xs)"
  by (induction xs) auto

lemma mset_insert_sorted: "mset (insert_sorted f x xs) = add_mset x (mset xs)"
  by (induction xs) auto

lemma mset_stable_sort: "mset (stable_sort f xs) = mset xs"
  by (induction xs) (simp_all add: stable_sort_def mset_insert_sorted)

lemma set_stable_sort: "set (stable_sort f xs) = set xs"
  using mset_stable_sort [of f xs] by (metis set_mset_mset)

text \<open>With valid dates the comparator orders by the time value, newest first.\<close>

lemma SortCompare_valid:
  "valid_key B a \<Longrightarrow> valid_key B b \<Longrightarrow>
     (SortCompare (compare_ts B) a b \<le> 0) = (\<not> js_gt (sort_key B b) (sort_key B a))"
  by (auto simp: SortCompare_def compare_ts_def valid_key_def js_gt_def split: option.splits)

lemma newest_first_insert:
  assumes "valid_key B x" "\<forall>y\<in>set ys. valid_key B y" "newest_first B ys"
  shows "newest_first B (insert_sorted (compare_ts B) x ys)"
  using assms
proof (induction ys)
  case Nil
  then show ?case by (simp add: newest_first_def)
next
  case (Cons y ys)
  show ?case
  proof (cases "SortCompare (compare_ts B) x y \<le> 0")
    case True
    then have xy: "\<not> js_gt (sort_key B y) (sort_key B x)"
      using Cons.prems by (simp add: SortCompare_valid)
    have "\<forall>z\<in>set ys. \<not> js_gt (sort_key B z) (sort_key B x)"
    proof
      fix z assume z: "z \<in> set ys"
      with Cons.prems have "\<not> js_gt (sort_key B z) (sort_key B y)"
        by (simp add: newest_first_def)
      with xy Cons.prems z show "\<not> js_gt (sort_key B z) (sort_key B x)"
        by (auto simp: js_gt_def valid_key_def split: option.splits)
    qed
    with True xy Cons.prems show ?thesis by (simp add: newest_first_def)
  next
    case False
    then have yx: "js_gt (sort_key B y) (sort_key B x)"
      using Cons.prems by (simp add: SortCompare_valid)
    then have "\<not> js_gt (sort_key B x) (sort_key B y)" by (rule js_gt_asym)
    moreover have "newest_first B (insert_sorted (compare_ts B) x ys)"
      using Cons by (simp add: newest_first_def)
    ultimately show ?thesis
      using False Cons.prems by (auto simp: newest_first_def set_insert_sorted)
  qed
qed

lemma newest_first_stable_sort:
  "\<forall>x\<in>set xs. valid_key B x \<Longrightarrow> newest_first B (stable_sort (compare_ts B) xs)"
proof (induction xs)
  case Nil
  show ?case by (simp add: stable_sort_def newest_first_def)
next
  case (Cons x xs)
  then have "newest_first B (stable_sort (compare_ts B) xs)" by simp
  moreover have "\<forall>y\<in>set (stable_sort (compare_ts B) xs). valid_key B y"
    using Cons.prems by (simp add: set_stable_sort)
  ultimately have "newest_first B (insert_sorted (compare_ts B) x (stable_sort (compare_ts B) xs))"
    using Cons.prems by (intro newest_first_insert) simp_all
  then show ?case by (simp add: stable_sort_def)
qed

lemma compare_ts_valid: "valid_key B a \<Longrightarrow> valid_key B b \<Longrightarrow> compare_ts B a b \<noteq> None"
  by (auto simp: compare_ts_def valid_key_def split: option.splits)

lemma Array_sort_valid:
  "\<forall>x\<in>set xs. valid_key B x \<Longrightarrow>
     Array_sort B (compare_ts B) xs = stable_sort (compare_ts B) xs"
  by (simp add: Array_sort_def list_all_iff compare_ts_valid)

lemma dated_valid: "dated_after_epoch B a \<Longrightarrow> valid_key B a"
  by (auto simp: dated_after_epoch_def valid_key_def sort_key_def js_gt_def split: option.splits)

lemma newest_first_missing_last:
  assumes "newest_first B xs" "\<forall>a\<in>set xs. dated_after_epoch B a"
  shows "missing_last xs"
  unfolding missing_last_def
proof (rule sorted_wrt_mono_rel [OF _ assms(1) [unfolded newest_first_def]])
  fix a b assume "a \<in> set xs" "b \<in> set xs" "\<not> js_gt (sort_key B b) (sort_key B a)"
  with assms(2) show "truthy (ts a) \<or> \<not> truthy (ts b)"
    by (auto simp: dated_after_epoch_def sort_key_def js_gt_def split: option.splits)
qed

text \<open>
  C8 (amended). When every present timestamp is a valid date strictly after the epoch,
  \<open>fetchSince\<close> returns a permutation of the normalized items, newest first, in which
  no item without a timestamp stands before an item with one.
\<close>

theorem fetchSince_missing_last:
  assumes "\<forall>a\<in>set (map normalize raw). dated_after_epoch B a"
  shows "\<exists>list. fetchSince B (Inr raw) = Inr list \<and> mset list = mset (map normalize raw) \<and>
           newest_first B list \<and> missing_last list"
proof -
  let ?list = "stable_sort (compare_ts B) (map normalize raw)"
  have v: "\<forall>a\<in>set (map normalize raw). valid_key B a"
    using assms by (blast intro: dated_valid)
  have nf: "newest_first B ?list" using v by (rule newest_first_stable_sort)
  have "\<forall>a\<in>set ?list. dated_after_epoch B a"
    using assms by (simp add: set_stable_sort)
  with nf have "missing_last ?list" by (rule newest_first_missing_last)
  with nf v show ?thesis by (simp add: fetchSince_def Array_sort_valid mset_stable_sort)
qed

text \<open>
  A missing timestamp sorts as the epoch (\<open>a.ts || 0\<close>), not as the earliest instant:
  an item dated 1969-12-31 is placed after an item without a timestamp.
\<close>

theorem fetchSince_missing_last_counterexample:
  "fetchSince JS (Inr [example_announcement 1 Null [], example_announcement 2 (Str T0) []]) =
     Inr [example_item 1 None [], example_item 2 (Some T0) []] \<and>
   \<not> missing_last [example_item 1 None [], example_item 2 (Some T0) []]"
  by (simp add: fetchSince_def Array_sort_def stable_sort_def
        normalize_example_Null normalize_example_Str T0_nonempty
       SortCompare_def compare_ts_def sort_key_example missing_last_def)
     (simp add: example_item_def truthy_def T0_nonempty)

theorem fetchSince_missing_last_witness:
  "dated_after_epoch JS (example_item 1 None []) \<and> dated_after_epoch JS (example_item 2 (Some T2) []) \<and>
   fetchSince JS (Inr [example_announcement 1 Null [], example_announcement 2 (Str T2) []]) =
     Inr [example_item 2 (Some T2) [], example_item 1 None []] \<and>
   missing_last [example_item 2 (Some T2) [], example_item 1 None []]"
  using fetchSince_missing_last [of "[example_announcement 1 Null [], example_announcement 2 (Str T2) []]" JS]
  by (simp add: fetchSince_def Array_sort_def stable_sort_def
        normalize_example_Null normalize_example_Str T_nonempty
       SortCompare_def compare_ts_def sort_key_example dated_after_epoch_def)
     (simp add: example_item_def truthy_def new_Date_T js_gt_def)

section \<open>Properties of the text normalizer\<close>

lemma replace_g_skip: "replace_g m r k t = replace_g m r 0 (drop k t)"
  by (induction m r k t rule: replace_g.induct) simp_all

lemma replace_g_None: "m (c # cs) = None \<Longrightarrow> replace_g m r 0 (c # cs) = c # replace_g m r 0 cs"
  by simp

lemma replace_g_Some:
  "m (c # cs) = Some n \<Longrightarrow> 0 < n \<Longrightarrow>
     replace_g m r 0 (c # cs) = r (take n (c # cs)) @ replace_g m r 0 (drop n (c # cs))"
proof -
  assume m: "m (c # cs) = Some n" and n: "0 < n"
  then obtain k where k: "n = Suc k" by (cases n) auto
  have "replace_g m r 0 (c # cs) = r (take n (c # cs)) @ replace_g m r k cs"
    using m k by simp
  also have "replace_g m r k cs = replace_g m r 0 (drop k cs)" by (rule replace_g_skip)
  finally show ?thesis using k by simp
qed

lemma match_tag_iff:
  "match_tag (c # cs) \<noteq> None \<longleftrightarrow> c = 0x3C \<and> cs \<noteq> [] \<and> hd cs \<noteq> 0x3E \<and> 0x3E \<in> set cs"
proof -
  let ?b = "takeWhile (\<lambda>x. x \<noteq> 0x3E) cs"
  have 1: "?b \<noteq> [] \<longleftrightarrow> cs \<noteq> [] \<and> hd cs \<noteq> 0x3E"
    by (cases cs) auto
  have 2: "length ?b < length cs \<longleftrightarrow> 0x3E \<in> set cs"
  proof
    assume l: "length ?b < length cs"
    show "0x3E \<in> set cs"
    proof (rule ccontr)
      assume "0x3E \<notin> set cs"
      then have "?b = cs" by (simp add: takeWhile_eq_all_conv) metis
      with l show False by simp
    qed
  next
    assume "0x3E \<in> set cs"
    then have "?b \<noteq> cs"
      using takeWhile_eq_all_conv [of "\<lambda>x. x \<noteq> 0x3E" cs] by blast
    moreover have "length ?b \<le> length cs" by (rule length_takeWhile_le)
    ultimately show "length ?b < length cs"
      by (metis le_neq_implies_less takeWhile_eq_take take_all_iff order_refl)
  qed
  show ?thesis using 1 2 by (auto simp: Let_def)
qed

lemma match_tag_pos: "match_tag t = Some n \<Longrightarrow> 0 < n"
  by (cases t) (auto simp: Let_def split: if_splits)

text \<open>No tag: a recursive reading.\<close>

lemma occurs_tag_Cons:
  "occurs match_tag (c # cs) \<longleftrightarrow>
     (c = 0x3C \<and> cs \<noteq> [] \<and> hd cs \<noteq> 0x3E \<and> 0x3E \<in> set cs) \<or> occurs match_tag cs"
  using match_tag_iff [of c cs] by simp

lemma set_replace_g_del: "set (replace_g m (\<lambda>_. []) k t) \<subseteq> set t"
  by (induction m "\<lambda>_::jsstring. []::jsstring" k t rule: replace_g.induct) (auto split: option.splits)

lemma replace_g_tag_GT:
  "replace_g match_tag r 0 (0x3E # cs) = 0x3E # replace_g match_tag r 0 cs"
  by simp

lemma no_tag_after_strip: "\<not> occurs match_tag (replace_g match_tag (\<lambda>_. []) 0 t)"
proof (induction t rule: length_induct)
  case (1 t)
  show ?case
  proof (cases t)
    case Nil
    then show ?thesis by simp
  next
    case (Cons c cs)
    show ?thesis
    proof (cases "match_tag (c # cs)")
      case None
      have ih: "\<not> occurs match_tag (replace_g match_tag (\<lambda>_. []) 0 cs)"
        using 1 Cons by simp
      have "\<not> (c = 0x3C \<and> cs \<noteq> [] \<and> hd cs \<noteq> 0x3E \<and> 0x3E \<in> set cs)"
        using None match_tag_iff [of c cs] by simp
      then consider "c \<noteq> 0x3C" | "cs = []" | cs' where "cs = 0x3E # cs'" | "0x3E \<notin> set cs"
        by (cases cs) auto
      then have "\<not> (c = 0x3C \<and> replace_g match_tag (\<lambda>_. []) 0 cs \<noteq> [] \<and>
             hd (replace_g match_tag (\<lambda>_. []) 0 cs) \<noteq> 0x3E \<and>
             0x3E \<in> set (replace_g match_tag (\<lambda>_. []) 0 cs))"
      proof cases
        case 4
        then show ?thesis using set_replace_g_del [of match_tag 0 cs] by auto
      qed auto
      with ih show ?thesis
        unfolding Cons replace_g_None [of match_tag, OF None] occurs_tag_Cons by blast
    next
      case (Some n)
      then have n: "0 < n" by (rule match_tag_pos)
      have "length (drop n (c # cs)) < length t" using n Cons by simp
      with 1 have "\<not> occurs match_tag (replace_g match_tag (\<lambda>_. []) 0 (drop n (c # cs)))"
        by blast
      then show ?thesis unfolding Cons replace_g_Some [of match_tag, OF Some n] by simp
    qed
  qed
qed

lemma repl_avoids_suffix: "repl_avoids m r S t \<Longrightarrow> suffix u t \<Longrightarrow> repl_avoids m r S u"
  unfolding repl_avoids_def by (meson suffix_order.trans)

lemma repl_avoids_mono: "repl_avoids m r S t \<Longrightarrow> S' \<subseteq> S \<Longrightarrow> repl_avoids m r S' t"
  unfolding repl_avoids_def by blast

lemma repl_avoids_tl: "repl_avoids m r S (c # cs) \<Longrightarrow> repl_avoids m r S cs"
  by (erule repl_avoids_suffix) (simp add: suffix_Cons)

lemma repl_avoids_drop: "repl_avoids m r S t \<Longrightarrow> repl_avoids m r S (drop n t)"
  by (erule repl_avoids_suffix) (rule suffix_drop)

lemma repl_avoids_head:
  "repl_avoids m r S t \<Longrightarrow> m t = Some n \<Longrightarrow>
     0 < n \<and> r (take n t) \<noteq> [] \<and> set (r (take n t)) \<inter> S = {}"
  unfolding repl_avoids_def by blast

lemma prefix_replace_g:
  "repl_avoids m r (set w) cs \<Longrightarrow> prefix w (replace_g m r 0 cs) \<Longrightarrow> prefix w cs"
proof (induction w arbitrary: cs)
  case Nil
  then show ?case by simp
next
  case (Cons x w)
  from Cons.prems(2) obtain y cs' where cs: "cs = y # cs'"
    by (cases cs) auto
  show ?case
  proof (cases "m cs")
    case None
    then have g: "replace_g m r 0 cs = y # replace_g m r 0 cs'"
      unfolding cs by simp
    from Cons.prems(1) have "repl_avoids m r (set w) cs'"
      unfolding cs by (auto intro: repl_avoids_tl repl_avoids_mono)
    with Cons.IH Cons.prems(2) g show ?thesis
      unfolding cs by simp
  next
    case (Some n)
    from repl_avoids_head [OF Cons.prems(1) Some]
    have n: "0 < n" and ne: "r (take n cs) \<noteq> []" and dis: "set (r (take n cs)) \<inter> set (x # w) = {}"
      by auto
    have "replace_g m r 0 cs = r (take n cs) @ replace_g m r 0 (drop n cs)"
      using Some n unfolding cs by (rule replace_g_Some)
    with Cons.prems(2) ne have "x = hd (r (take n cs))"
      by (cases "r (take n cs)") auto
    with ne dis show ?thesis
      by (metis disjoint_iff hd_in_set list.set_intros(1))
  qed
qed

lemma sublist_skip_disjoint:
  "set a \<inter> set e = {} \<Longrightarrow> e \<noteq> [] \<Longrightarrow> sublist e (a @ zs) \<Longrightarrow> sublist e zs"
proof (induction a)
  case Nil
  then show ?case by simp
next
  case (Cons x a)
  from Cons.prems(2) obtain y e' where e: "e = y # e'" by (cases e) auto
  from Cons.prems(1) e have "y \<noteq> x" by auto
  then have "\<not> prefix e (x # a @ zs)" unfolding e by simp
  with Cons.prems(3) have "sublist e (a @ zs)" by (simp add: sublist_Cons_right)
  with Cons show ?case by simp
qed

lemma sublist_replace_g:
  assumes "e \<noteq> []"
  shows "repl_avoids m r (set e) t \<Longrightarrow> sublist e (replace_g m r 0 t) \<Longrightarrow>
     \<exists>ps ss. t = ps @ e @ ss \<and> m (e @ ss) = None"
proof (induction t rule: length_induct)
  case (1 t)
  note av = "1.prems"(1) and sub = "1.prems"(2)
  show ?case
  proof (cases t)
    case Nil
    with sub assms show ?thesis by simp
  next
    case (Cons c cs)
    show ?thesis
    proof (cases "m t")
      case None
      then have g: "replace_g m r 0 t = c # replace_g m r 0 cs"
        unfolding Cons by simp
      from sub consider "prefix e (c # replace_g m r 0 cs)" | "sublist e (replace_g m r 0 cs)"
        unfolding g by (auto simp: sublist_Cons_right)
      then show ?thesis
      proof cases
        case 1
        with assms obtain e' where e: "e = c # e'" and p: "prefix e' (replace_g m r 0 cs)"
          by (cases e) auto
        have "repl_avoids m r (set e') cs"
          using av unfolding Cons e by (auto intro: repl_avoids_tl repl_avoids_mono)
        from prefix_replace_g [OF this p] have "prefix e t" unfolding e Cons by simp
        then obtain ss where "t = e @ ss" by (auto simp: prefix_def)
        with None have "t = [] @ e @ ss \<and> m (e @ ss) = None" by simp
        then show ?thesis by blast
      next
        case 2
        have "repl_avoids m r (set e) cs" using av unfolding Cons by (rule repl_avoids_tl)
        with "1.IH" 2 Cons obtain ps ss where "cs = ps @ e @ ss" "m (e @ ss) = None"
          by (metis length_Cons lessI)
        then have "t = (c # ps) @ e @ ss \<and> m (e @ ss) = None" unfolding Cons by simp
        then show ?thesis by blast
      qed
    next
      case (Some n)
      from repl_avoids_head [OF av Some]
      have n: "0 < n" and dis: "set (r (take n t)) \<inter> set e = {}" by auto
      have "replace_g m r 0 t = r (take n t) @ replace_g m r 0 (drop n t)"
        using Some n unfolding Cons by (rule replace_g_Some)
      with sub dis assms have s: "sublist e (replace_g m r 0 (drop n t))"
        by (auto dest: sublist_skip_disjoint)
      have "length (drop n t) < length t" using n Cons by simp
      moreover have "repl_avoids m r (set e) (drop n t)" using av by (rule repl_avoids_drop)
      ultimately obtain ps ss where "drop n t = ps @ e @ ss" "m (e @ ss) = None"
        using "1.IH" s by blast
      then have "t = (take n t @ ps) @ e @ ss \<and> m (e @ ss) = None"
        by (metis append.assoc append_take_drop_id)
      then show ?thesis by blast
    qed
  qed
qed

lemma notin_set_replace_g:
  "repl_avoids m r {x} t \<Longrightarrow> x \<notin> set t \<Longrightarrow> x \<notin> set (replace_g m r 0 t)"
proof (induction t rule: length_induct)
  case (1 t)
  note av = "1.prems"(1) and x = "1.prems"(2)
  show ?case
  proof (cases t)
    case Nil
    then show ?thesis by simp
  next
    case (Cons c cs)
    show ?thesis
    proof (cases "m t")
      case None
      have "repl_avoids m r {x} cs" using av unfolding Cons by (rule repl_avoids_tl)
      with "1.IH" x Cons have "x \<notin> set (replace_g m r 0 cs)" by simp
      with None x show ?thesis unfolding Cons by simp
    next
      case (Some n)
      from repl_avoids_head [OF av Some]
      have n: "0 < n" and dis: "x \<notin> set (r (take n t))" by auto
      have g: "replace_g m r 0 t = r (take n t) @ replace_g m r 0 (drop n t)"
        using Some n unfolding Cons by (rule replace_g_Some)
      have "length (drop n t) < length t" using n Cons by simp
      moreover have "repl_avoids m r {x} (drop n t)" using av by (rule repl_avoids_drop)
      moreover have "x \<notin> set (drop n t)" using x by (meson in_set_dropD)
      ultimately have "x \<notin> set (replace_g m r 0 (drop n t))" using "1.IH" by blast
      with dis show ?thesis unfolding g by simp
    qed
  qed
qed

lemma occurs_tag_append_plain:
  "0x3C \<notin> set a \<Longrightarrow> occurs match_tag (a @ zs) = occurs match_tag zs"
  by (induction a) (simp_all add: occurs_tag_Cons del: occurs.simps)

lemma occurs_suffix: "occurs m u \<Longrightarrow> suffix u t \<Longrightarrow> occurs m t"
  by (induction t) (auto simp: suffix_Cons)

lemma no_tag_replace_g:
  assumes hd: "\<And>u n. m u = Some n \<Longrightarrow> hd u \<noteq> 0x3E"
  shows "repl_avoids m r {0x3C, 0x3E} t \<Longrightarrow> \<not> occurs match_tag t \<Longrightarrow>
     \<not> occurs match_tag (replace_g m r 0 t)"
proof (induction t rule: length_induct)
  case (1 t)
  note av = "1.prems"(1) and nt = "1.prems"(2)
  show ?case
  proof (cases t)
    case Nil
    then show ?thesis by simp
  next
    case (Cons c cs)
    have avcs: "repl_avoids m r {0x3C, 0x3E} cs" using av unfolding Cons by (rule repl_avoids_tl)
    show ?thesis
    proof (cases "m t")
      case None
      from nt have ntcs: "\<not> occurs match_tag cs"
        and hdc: "\<not> (c = 0x3C \<and> cs \<noteq> [] \<and> hd cs \<noteq> 0x3E \<and> 0x3E \<in> set cs)"
        unfolding Cons occurs_tag_Cons by auto
      from "1.IH" avcs ntcs Cons have ih: "\<not> occurs match_tag (replace_g m r 0 cs)" by simp
      from hdc consider "c \<noteq> 0x3C" | "cs = []" | cs' where "cs = 0x3E # cs'" | "0x3E \<notin> set cs"
        by (cases cs) auto
      then have "\<not> (c = 0x3C \<and> replace_g m r 0 cs \<noteq> [] \<and> hd (replace_g m r 0 cs) \<noteq> 0x3E \<and>
             0x3E \<in> set (replace_g m r 0 cs))"
      proof cases
        case 3
        have "m cs = None"
        proof (cases "m cs")
          case (Some k)
          from hd [OF Some] 3 show ?thesis by simp
        qed simp
        then show ?thesis unfolding 3 by simp
      next
        case 4
        have "repl_avoids m r {0x3E} cs" using avcs by (rule repl_avoids_mono) simp
        from notin_set_replace_g [OF this 4] show ?thesis by simp
      qed auto
      with ih have "\<not> occurs match_tag (c # replace_g m r 0 cs)"
        unfolding occurs_tag_Cons by blast
      with None show ?thesis unfolding Cons by simp
    next
      case (Some n)
      from repl_avoids_head [OF av Some]
      have n: "0 < n" and dis: "0x3C \<notin> set (r (take n t))" by auto
      have g: "replace_g m r 0 t = r (take n t) @ replace_g m r 0 (drop n t)"
        using Some n unfolding Cons by (rule replace_g_Some)
      have "length (drop n t) < length t" using n Cons by simp
      moreover have "repl_avoids m r {0x3C, 0x3E} (drop n t)" using av by (rule repl_avoids_drop)
      moreover have "\<not> occurs match_tag (drop n t)"
        using nt occurs_suffix [OF _ suffix_drop] by blast
      ultimately have "\<not> occurs match_tag (replace_g m r 0 (drop n t))" using "1.IH" by blast
      then show ?thesis unfolding g occurs_tag_append_plain [OF dis] .
    qed
  qed
qed

lemma dels_refl: "dels P xs xs"
  by (induction xs) (auto intro: dels.intros)

lemma dels_append: "dels P a b \<Longrightarrow> dels P c d \<Longrightarrow> dels P (a @ c) (b @ d)"
  by (induction rule: dels.induct) (auto intro: dels.intros)

lemma dels_trans: "dels P a b \<Longrightarrow> dels P b c \<Longrightarrow> dels P a c"
proof (induction arbitrary: c rule: dels.induct)
  case dels_Nil
  then show ?case by simp
next
  case (dels_Keep xs ys x)
  from dels_Keep.prems show ?case
  proof (cases rule: dels.cases)
    case (dels_Keep zs)
    with dels_Keep.IH show ?thesis by (auto intro: dels.intros)
  next
    case dels_Drop
    with dels_Keep.IH show ?thesis by (auto intro: dels.intros)
  qed
next
  case (dels_Drop x xs ys)
  then show ?case by (auto intro: dels.intros)
qed

lemma dels_rev: "dels P xs ys \<Longrightarrow> dels P (rev xs) (rev ys)"
proof (induction rule: dels.induct)
  case dels_Nil
  show ?case by (simp add: dels.dels_Nil)
next
  case (dels_Keep xs ys x)
  then show ?case by (simp add: dels_append dels_refl)
next
  case (dels_Drop x xs ys)
  have "dels P [x] []" using dels_Drop.hyps(1) by (auto intro: dels.intros)
  from dels_append [OF dels_Drop.IH this] show ?case by simp
qed

lemma dels_dropWhile: "dels P xs (dropWhile P xs)"
  by (induction xs) (auto intro: dels.intros dels_refl)

lemma dels_trim: "dels is_space s (trim s)"
proof -
  have 1: "dels is_space s (dropWhile is_space s)" by (rule dels_dropWhile)
  have "dels is_space (rev (dropWhile is_space s)) (dropWhile is_space (rev (dropWhile is_space s)))"
    by (rule dels_dropWhile)
  from dels_rev [OF this] have "dels is_space (dropWhile is_space s) (trim s)"
    by (simp add: trim_def)
  with 1 show ?thesis by (rule dels_trans)
qed

lemma dels_join: "list_all2 (dels P) ls ls' \<Longrightarrow> dels P (join d ls) (join d ls')"
proof (induction ls ls' rule: list_all2_induct)
  case Nil
  show ?case by (simp add: dels_Nil)
next
  case (Cons l ls l' ls')
  show ?case
  proof (cases ls)
    case Nil
    with Cons show ?thesis by simp
  next
    case c: (Cons a as)
    with Cons.hyps(2) obtain a' as' where c': "ls' = a' # as'" by (cases ls') auto
    have "dels P (l @ d # join d ls) (l' @ d # join d ls')"
      using Cons.hyps(1) Cons.IH by (intro dels_append dels_Keep)
    then show ?thesis unfolding c c' by simp
  qed
qed

lemma split_on_nonempty: "split_on d t \<noteq> []"
  by (induction t) (auto split: list.splits)

lemma join_split_on: "join d (split_on d t) = t"
proof (induction t)
  case Nil
  show ?case by simp
next
  case (Cons c cs)
  obtain l ls where s: "split_on d cs = l # ls"
    using split_on_nonempty [of d cs] by (cases "split_on d cs") auto
  show ?case
  proof (cases "c = d")
    case True
    with Cons s show ?thesis by simp
  next
    case False
    with Cons s show ?thesis by (cases ls) auto
  qed
qed

lemma dels_lines: "dels is_space t (join 0x0A (map trim (split_on 0x0A t)))"
proof -
  have "list_all2 (dels is_space) (split_on 0x0A t) (map trim (split_on 0x0A t))"
    by (simp add: list_all2_map2 list.rel_refl dels_trim)
  from dels_join [OF this, of "0x0A"] show ?thesis by (simp add: join_split_on)
qed

lemma dels_set: "dels P xs ys \<Longrightarrow> set ys \<subseteq> set xs"
  by (induction rule: dels.induct) auto

lemma dels_Cons_kept: "dels P (x # xs) ys \<Longrightarrow> \<not> P x \<Longrightarrow> \<exists>ys'. ys = x # ys' \<and> dels P xs ys'"
  by (erule dels.cases) auto

lemma no_tag_dels:
  assumes "\<not> P 0x3E"
  shows "dels P xs ys \<Longrightarrow> \<not> occurs match_tag xs \<Longrightarrow> \<not> occurs match_tag ys"
proof (induction rule: dels.induct)
  case dels_Nil
  then show ?case by simp
next
  case (dels_Keep xs ys x)
  from dels_Keep.prems have nt: "\<not> occurs match_tag xs"
    and hdc: "\<not> (x = 0x3C \<and> xs \<noteq> [] \<and> hd xs \<noteq> 0x3E \<and> 0x3E \<in> set xs)"
    unfolding occurs_tag_Cons by auto
  from hdc consider "x \<noteq> 0x3C" | "xs = []" | xs' where "xs = 0x3E # xs'" | "0x3E \<notin> set xs"
    by (cases xs) auto
  then have "\<not> (x = 0x3C \<and> ys \<noteq> [] \<and> hd ys \<noteq> 0x3E \<and> 0x3E \<in> set ys)"
  proof cases
    case 2
    with dels_Keep.hyps dels_set [of P xs ys] show ?thesis by auto
  next
    case 3
    with dels_Keep.hyps assms dels_Cons_kept [of P "0x3E" xs' ys] show ?thesis by auto
  next
    case 4
    with dels_Keep.hyps dels_set [of P xs ys] show ?thesis by auto
  qed auto
  with dels_Keep.IH [OF nt] show ?case unfolding occurs_tag_Cons by blast
next
  case (dels_Drop x xs ys)
  then show ?case unfolding occurs_tag_Cons by blast
qed

lemma sublist_trans: "sublist xs ys \<Longrightarrow> sublist ys zs \<Longrightarrow> sublist xs zs"
  unfolding sublist_def by (metis append.assoc)

lemma find_Some_member: "find P xs = Some x \<Longrightarrow> P x \<and> x \<in> set xs"
  by (induction xs) (auto split: if_splits)

lemma prefix_take: "prefix e u \<Longrightarrow> take (length e) u = e"
  by (auto simp: prefix_def)

lemma decode_entity_values:
  "decode_entity (lit ''&nbsp;'') = [0x20]" "decode_entity (lit ''&amp;'') = [0x26]"
  "decode_entity (lit ''&lt;'') = [0x3C]" "decode_entity (lit ''&gt;'') = [0x3E]"
  "decode_entity (lit ''&quot;'') = [0x22]" "decode_entity (lit ''&#39;'') = [0x27]"
  by (simp_all add: decode_entity_def ents_def lit_def)

lemma match_entity_cases:
  assumes "match_entity u = Some n"
  obtains "prefix (lit ''&nbsp;'') u" "decode_entity (take n u) = [0x20]" "0 < n"
  | "prefix (lit ''&amp;'') u" "decode_entity (take n u) = [0x26]" "0 < n"
  | "prefix (lit ''&lt;'') u" "decode_entity (take n u) = [0x3C]" "0 < n"
  | "prefix (lit ''&gt;'') u" "decode_entity (take n u) = [0x3E]" "0 < n"
  | "prefix (lit ''&quot;'') u" "decode_entity (take n u) = [0x22]" "0 < n"
  | "prefix (lit ''&#39;'') u" "decode_entity (take n u) = [0x27]" "0 < n"
proof -
  from assms obtain e where f: "find (\<lambda>e. prefix e u) (map fst ents) = Some e" and n: "n = length e"
    by (auto simp: match_entity_def)
  from find_Some_member [OF f] have p: "prefix e u" and e: "e \<in> set (map fst ents)"
    by auto
  from p n have t: "take n u = e" by (simp add: prefix_take)
  from e have "e = lit ''&nbsp;'' \<or> e = lit ''&amp;'' \<or> e = lit ''&lt;'' \<or> e = lit ''&gt;'' \<or>
      e = lit ''&quot;'' \<or> e = lit ''&#39;''"
    by (auto simp: ents_def)
  moreover have "0 < n" using e n by (auto simp: ents_def lit_def)
  ultimately show ?thesis
    using p t that by (auto simp: decode_entity_values)
qed

lemma match_entity_prefix: "e \<in> set (map fst ents) \<Longrightarrow> prefix e u \<Longrightarrow> match_entity u \<noteq> None"
  by (auto simp: match_entity_def find_None_iff)

lemma entity_chars: "e \<in> set (map fst ents) \<Longrightarrow> e \<noteq> [] \<and> set e \<subseteq> - {0x20, 0x22, 0x27, 0x0A}"
  by (auto simp: ents_def lit_def)

lemma match_nl3_Some: "match_nl3 u = Some n \<Longrightarrow> 0 < n \<and> hd u = 0x0A"
proof -
  assume "match_nl3 u = Some n"
  then have n: "3 \<le> n" and l: "n = length (takeWhile (\<lambda>c. c = 0x0A) u)"
    by (auto simp: match_nl3_def Let_def split: if_splits)
  then have "takeWhile (\<lambda>c. c = 0x0A) u \<noteq> []" by auto
  then have "hd u = 0x0A" by (cases u) (auto split: if_splits)
  with n show ?thesis by simp
qed

lemma repl_avoids_nl3: "0x0A \<notin> S \<Longrightarrow> repl_avoids match_nl3 (\<lambda>_. [0x0A, 0x0A]) S t"
  unfolding repl_avoids_def by (auto dest: match_nl3_Some)

lemma sublist_collapse:
  assumes "e \<noteq> []" "0x0A \<notin> set e"
    and "sublist e (replace_g match_nl3 (\<lambda>_. [0x0A, 0x0A]) 0 t)"
  shows "sublist e t"
proof -
  from sublist_replace_g [OF assms(1) repl_avoids_nl3 [OF assms(2)] assms(3)]
  obtain ps ss where "t = ps @ e @ ss" by blast
  then show ?thesis by simp
qed

lemma no_tag_collapse:
  assumes "\<not> occurs match_tag t"
  shows "\<not> occurs match_tag (replace_g match_nl3 (\<lambda>_. [0x0A, 0x0A]) 0 t)"
proof (rule no_tag_replace_g)
  show "repl_avoids match_nl3 (\<lambda>_. [0x0A, 0x0A]) {0x3C, 0x3E} t"
    by (rule repl_avoids_nl3) simp
  show "\<not> occurs match_tag t" by (rule assms)
qed (auto dest: match_nl3_Some)

lemma sublist_trim: "sublist (trim s) s"
proof -
  have "sublist (trim s) (dropWhile is_space s)"
    by (simp add: trim_def sublist_rev_left)
  moreover have "sublist (dropWhile is_space s) s" by simp
  ultimately show ?thesis by (rule sublist_trans)
qed

lemma sublist_join_member: "l \<in> set ls \<Longrightarrow> sublist l (join d ls)"
proof (induction d ls rule: join.induct)
  case (3 d l' l2 ls)
  show ?case
  proof (cases "l = l'")
    case True
    then show ?thesis by simp
  next
    case False
    with 3 have "sublist l (join d (l2 # ls))" by simp
    moreover have "sublist (join d (l2 # ls)) ((l' @ [d]) @ join d (l2 # ls))"
      by (rule sublist_append_leftI)
    ultimately have "sublist l ((l' @ [d]) @ join d (l2 # ls))" by (rule sublist_trans)
    then show ?thesis by simp
  qed
qed simp_all

lemma sublist_join_line:
  "e \<noteq> [] \<Longrightarrow> d \<notin> set e \<Longrightarrow> sublist e (join d ls) \<Longrightarrow> \<exists>l\<in>set ls. sublist e l"
proof (induction d ls rule: join.induct)
  case (3 d l l2 ls)
  from "3.prems"(3) have "sublist e (l @ d # join d (l2 # ls))" by simp
  then consider "sublist e l" | "sublist e (d # join d (l2 # ls))"
    | xs1 xs2 where "e = xs1 @ xs2" "suffix xs1 l" "prefix xs2 (d # join d (l2 # ls))"
    by (auto simp: sublist_append)
  then show ?case
  proof cases
    case 1
    then show ?thesis by auto
  next
    case 2
    with "3.prems" have "sublist e (join d (l2 # ls))"
      by (cases e) (auto simp: sublist_Cons_right)
    with 3 show ?thesis by auto
  next
    case 3
    with "3.prems"(2) have "xs2 = []" by (cases xs2) auto
    with 3 have "sublist e l" by auto
    then show ?thesis by auto
  qed
qed simp_all

lemma sublist_lines:
  assumes "e \<noteq> []" "0x0A \<notin> set e"
    and "sublist e (join 0x0A (map trim (split_on 0x0A t)))"
  shows "sublist e t"
proof -
  from sublist_join_line [OF assms] obtain l where l: "l \<in> set (split_on 0x0A t)"
    and e: "sublist e (trim l)" by auto
  from e sublist_trim have "sublist e l" by (rule sublist_trans)
  moreover from sublist_join_member [OF l, of "0x0A"] have "sublist l t"
    by (simp add: join_split_on)
  ultimately show ?thesis by (rule sublist_trans)
qed

lemma not_space_GT: "\<not> is_space 0x3E"
  by (simp add: is_space_def)

lemma no_tag_tidy: "\<not> occurs match_tag t \<Longrightarrow> \<not> occurs match_tag (tidy_lines t)"
  unfolding tidy_lines_def
  by (intro no_tag_dels [OF not_space_GT dels_trim] no_tag_collapse
        no_tag_dels [OF not_space_GT dels_lines])

lemma sublist_tidy:
  assumes "e \<noteq> []" "0x0A \<notin> set e" "sublist e (tidy_lines t)"
  shows "sublist e t"
proof -
  from assms(3) sublist_trim
  have "sublist e (replace_g match_nl3 (\<lambda>_. [0x0A, 0x0A]) 0 (join 0x0A (map trim (split_on 0x0A t))))"
    unfolding tidy_lines_def by (rule sublist_trans)
  from sublist_collapse [OF assms(1,2) this] show ?thesis
    by (rule sublist_lines [OF assms(1,2)])
qed

lemma occurs_iff: "occurs m xs \<longleftrightarrow> (\<exists>u. suffix u xs \<and> u \<noteq> [] \<and> m u \<noteq> None)"
proof (induction xs)
  case Nil
  show ?case by simp
next
  case (Cons x xs)
  show ?case
  proof
    assume "occurs m (x # xs)"
    then consider "m (x # xs) \<noteq> None" | "occurs m xs" by auto
    then show "\<exists>u. suffix u (x # xs) \<and> u \<noteq> [] \<and> m u \<noteq> None"
    proof cases
      case 1
      then have "suffix (x # xs) (x # xs) \<and> x # xs \<noteq> [] \<and> m (x # xs) \<noteq> None" by simp
      then show ?thesis by blast
    next
      case 2
      with Cons obtain u where "suffix u xs" "u \<noteq> []" "m u \<noteq> None" by blast
      then have "suffix u (x # xs) \<and> u \<noteq> [] \<and> m u \<noteq> None" by (simp add: suffix_Cons)
      then show ?thesis by blast
    qed
  next
    assume "\<exists>u. suffix u (x # xs) \<and> u \<noteq> [] \<and> m u \<noteq> None"
    then obtain u where u: "suffix u (x # xs)" "u \<noteq> []" "m u \<noteq> None" by blast
    from u(1) consider "u = x # xs" | "suffix u xs" by (auto simp: suffix_Cons)
    then show "occurs m (x # xs)"
    proof cases
      case 1
      with u show ?thesis by simp
    next
      case 2
      with u Cons show ?thesis by auto
    qed
  qed
qed

lemma match_tag_is_tag: "match_tag u \<noteq> None \<longleftrightarrow> (\<exists>w. is_tag w \<and> prefix w u)"
proof
  assume m: "match_tag u \<noteq> None"
  then obtain c cs where u: "u = c # cs" by (cases u) auto
  from m have c: "c = 0x3C" and ne: "cs \<noteq> []" and h: "hd cs \<noteq> 0x3E" and g: "0x3E \<in> set cs"
    unfolding u match_tag_iff by auto
  let ?b = "takeWhile (\<lambda>x. x \<noteq> 0x3E) cs" and ?r = "dropWhile (\<lambda>x. x \<noteq> 0x3E) cs"
  have b: "?b \<noteq> []" using ne h by (cases cs) auto
  have nb: "0x3E \<notin> set ?b" by (auto dest: set_takeWhileD)
  have "?r \<noteq> []" using g by (simp add: dropWhile_eq_Nil_conv)
  moreover from this have "hd ?r = 0x3E" using hd_dropWhile [of "\<lambda>x. x \<noteq> 0x3E" cs] by simp
  ultimately obtain r' where r: "?r = 0x3E # r'" by (cases ?r) auto
  have "cs = ?b @ ?r" by simp
  then have "u = (0x3C # ?b @ [0x3E]) @ r'" unfolding u c r by simp
  then have "prefix (0x3C # ?b @ [0x3E]) u" by (metis prefixI)
  moreover have "is_tag (0x3C # ?b @ [0x3E])" unfolding is_tag_def using b nb by blast
  ultimately show "\<exists>w. is_tag w \<and> prefix w u" by blast
next
  assume "\<exists>w. is_tag w \<and> prefix w u"
  then obtain body r where u: "u = 0x3C # (body @ 0x3E # r)" and b: "body \<noteq> []" "0x3E \<notin> set body"
    by (auto simp: is_tag_def prefix_def)
  from b have "hd (body @ 0x3E # r) \<noteq> 0x3E" by (cases body) auto
  then show "match_tag u \<noteq> None" unfolding u match_tag_iff by simp
qed

lemma has_tag_iff: "has_tag xs \<longleftrightarrow> occurs match_tag xs"
proof -
  have "has_tag xs \<longleftrightarrow> (\<exists>u. suffix u xs \<and> (\<exists>w. is_tag w \<and> prefix w u))"
    unfolding has_tag_def sublist_altdef' by blast
  also have "\<dots> \<longleftrightarrow> (\<exists>u. suffix u xs \<and> u \<noteq> [] \<and> match_tag u \<noteq> None)"
    unfolding match_tag_is_tag [symmetric] by (metis match_tag.simps(1))
  finally show ?thesis unfolding occurs_iff .
qed

lemma no_tag_strip_tags: "\<not> occurs match_tag (strip_tags html)"
  unfolding strip_tags_def by (rule no_tag_after_strip)

lemma repl_avoids_decode_all:
  assumes "S \<inter> {0x20, 0x26, 0x3C, 0x3E, 0x22, 0x27} = {}"
  shows "repl_avoids match_entity decode_entity S t"
  unfolding repl_avoids_def
proof (intro allI impI)
  fix u n assume m: "match_entity u = Some n"
  from m show "0 < n \<and> decode_entity (take n u) \<noteq> [] \<and> set (decode_entity (take n u)) \<inter> S = {}"
    using assms by (cases rule: match_entity_cases) auto
qed

lemma entity_shape:
  "e \<in> set (map fst ents) \<Longrightarrow>
     e = 0x26 # tl e \<and> set (tl e) \<inter> {0x20, 0x26, 0x3C, 0x3E, 0x22, 0x27} = {}"
  by (auto simp: ents_def lit_def)

lemma match_entity_head: "match_entity (c # cs) = Some n \<Longrightarrow> c = 0x26"
  by (erule match_entity_cases) (auto simp: lit_def prefix_def)

lemma match_entity_amp:
  assumes "match_entity u = Some n" "decode_entity (take n u) = [0x26]"
  shows "prefix (lit ''&amp;'') u \<and> n = 5"
proof -
  from assms(1) obtain e where f: "find (\<lambda>e. prefix e u) (map fst ents) = Some e" and n: "n = length e"
    by (auto simp: match_entity_def)
  from find_Some_member [OF f] have p: "prefix e u" and e: "e \<in> set (map fst ents)" by auto
  from p n have t: "take n u = e" by (simp add: prefix_take)
  from e assms(2) have "e = lit ''&amp;''"
    unfolding t by (auto simp: ents_def decode_entity_values)
  with p n show ?thesis by (simp add: lit_def)
qed

lemma entity_after_decode:
  assumes e: "e \<in> set (map fst ents)"
  shows "sublist e (decode_entities t) \<Longrightarrow> sublist (lit ''&amp;'' @ tl e) t"
proof (induction t rule: length_induct)
  case (1 t)
  note sub = "1.prems"
  from entity_shape [OF e] obtain e' where eh: "e = 0x26 # e'"
    and tl: "set e' \<inter> {0x20, 0x26, 0x3C, 0x3E, 0x22, 0x27} = {}"
    by (cases e) auto
  have tle: "tl e = e'" unfolding eh by simp
  have av: "\<And>u. repl_avoids match_entity decode_entity (set e') u"
    using tl by (rule repl_avoids_decode_all)
  show ?case
    unfolding tle
  proof (cases t)
    case Nil
    with sub show "sublist (lit ''&amp;'' @ e') t" unfolding eh by (simp add: decode_entities_def)
  next
    case (Cons c cs)
    show "sublist (lit ''&amp;'' @ e') t"
    proof (cases "match_entity t")
      case None
      then have g: "decode_entities t = c # decode_entities cs"
        unfolding Cons decode_entities_def by simp
      from sub consider "prefix e (c # decode_entities cs)" | "sublist e (decode_entities cs)"
        unfolding g by (auto simp: sublist_Cons_right)
      then show ?thesis
      proof cases
        case 1
        then have c: "c = 0x26" and p: "prefix e' (decode_entities cs)"
          unfolding eh by simp_all
        from prefix_replace_g [OF av p [unfolded decode_entities_def]] have "prefix e' cs" .
        with c have "prefix e t" unfolding Cons eh by simp
        from match_entity_prefix [OF e this] None show ?thesis by simp
      next
        case 2
        with "1.IH" Cons have "sublist (lit ''&amp;'' @ e') cs" by (simp add: tle)
        then show ?thesis unfolding Cons by (simp add: sublist_Cons_right)
      qed
    next
      case (Some n)
      then have n: "0 < n" by (rule match_entity_cases)
      from Some obtain x where r: "decode_entity (take n t) = [x]"
        by (rule match_entity_cases) blast+
      have g: "decode_entities t = x # decode_entities (drop n t)"
        using replace_g_Some [of match_entity c cs n decode_entity] Some n r
        unfolding Cons decode_entities_def by simp
      have len: "length (drop n t) < length t" using n Cons by simp
      from sub consider "prefix e (x # decode_entities (drop n t))" | "sublist e (decode_entities (drop n t))"
        unfolding g by (auto simp: sublist_Cons_right)
      then show ?thesis
      proof cases
        case 1
        then have x: "x = 0x26" and p: "prefix e' (decode_entities (drop n t))"
          unfolding eh by simp_all
        from prefix_replace_g [OF av p [unfolded decode_entities_def]] have pt: "prefix e' (drop n t)" .
        from match_entity_amp [OF Some] r x have a: "prefix (lit ''&amp;'') t" and n5: "n = 5" by auto
        have "length (lit ''&amp;'') = n" unfolding n5 by (simp add: lit_def)
        with prefix_take [OF a] have "take n t = lit ''&amp;''" by simp
        then have "t = lit ''&amp;'' @ drop n t" by (metis append_take_drop_id)
        moreover from pt have "prefix (lit ''&amp;'' @ e') (lit ''&amp;'' @ drop n t)" by simp
        ultimately have "prefix (lit ''&amp;'' @ e') t" by simp
        then show ?thesis by simp
      next
        case 2
        with "1.IH" len have "sublist (lit ''&amp;'' @ e') (drop n t)" by (auto simp: tle)
        moreover have "sublist (drop n t) t" by simp
        ultimately show ?thesis by (rule sublist_trans)
      qed
    qed
  qed
qed

lemma match_entity_take:
  assumes "match_entity u = Some n"
  shows "take n u \<in> set (map fst ents) \<and> prefix (take n u) u \<and> n = length (take n u)"
proof -
  from assms obtain e where f: "find (\<lambda>e. prefix e u) (map fst ents) = Some e" and n: "n = length e"
    by (auto simp: match_entity_def)
  from find_Some_member [OF f] have p: "prefix e u" and e: "e \<in> set (map fst ents)" by auto
  from p n have "take n u = e" by (simp add: prefix_take)
  with p e n show ?thesis by simp
qed

lemma decode_entity_code:
  assumes "e \<in> set (map fst ents)"
  shows "(decode_entity e = [0x3E] \<longrightarrow> e = lit ''&gt;'') \<and>
         (decode_entity e = [0x3C] \<longrightarrow> e = lit ''&lt;'') \<and>
         (decode_entity e \<noteq> [0x3E] \<longrightarrow> 0x3E \<notin> set e \<and> \<not> prefix (lit ''&gt;'') (e @ b))"
  using assms by (auto simp: ents_def decode_entity_values) (auto simp: lit_def)

lemma sublist_Cons_fresh:
  "a \<notin> set e \<Longrightarrow> sublist (a # w) (e @ b) \<Longrightarrow> sublist (a # w) b"
  by (induction e) (auto simp: sublist_Cons_right)

lemma sublist_code_append:
  assumes "e \<in> set (map fst ents)" "sublist (lit ''&gt;'') (e @ b)"
  shows "prefix (lit ''&gt;'') (e @ b) \<or> sublist (lit ''&gt;'') b"
proof -
  from entity_shape [OF assms(1)] obtain e' where e: "e = 0x26 # e'" and "0x26 \<notin> set e'"
    by (cases e) auto
  then have "sublist (0x26 # lit ''gt;'') (e' @ b) \<Longrightarrow> sublist (0x26 # lit ''gt;'') b"
    by (rule_tac sublist_Cons_fresh)
  moreover have l: "lit ''&gt;'' = 0x26 # lit ''gt;''" by (simp add: lit_def)
  ultimately show ?thesis using assms(2) unfolding e l by (auto simp: sublist_Cons_right)
qed

lemma first_gt:
  "0x3E \<in> set (decode_entities u) \<Longrightarrow>
     \<exists>body gt ss. u = body @ gt @ ss \<and> (gt = [0x3E] \<or> gt = lit ''&gt;'') \<and>
        0x3E \<notin> set body \<and> \<not> sublist (lit ''&gt;'') body \<and>
        (body = [] \<longrightarrow> hd (decode_entities u) = 0x3E)"
proof (induction u rule: length_induct)
  case (1 u)
  note g = "1.prems"
  have gt_code: "lit ''&gt;'' \<in> set (map fst ents)" by (simp add: ents_def)
  show ?case
  proof (cases u)
    case Nil
    with g show ?thesis by (simp add: decode_entities_def)
  next
    case (Cons c cs)
    show ?thesis
    proof (cases "match_entity u")
      case None
      then have d: "decode_entities u = c # decode_entities cs"
        unfolding Cons decode_entities_def by simp
      show ?thesis
      proof (cases "c = 0x3E")
        case True
        have "hd (decode_entities u) = 0x3E" using d True by simp
        moreover have "u = [] @ [0x3E] @ cs" using Cons True by simp
        moreover have "lit ''&gt;'' \<noteq> []" by (simp add: lit_def)
        ultimately show ?thesis
          by (intro exI [of _ "[]"] exI [of _ "[0x3E]"] exI [of _ cs]) simp
      next
        case False
        with g d have "0x3E \<in> set (decode_entities cs)" by simp
        moreover have "length cs < length u" using Cons by simp
        ultimately obtain body gt ss where cs: "cs = body @ gt @ ss"
          and gt: "gt = [0x3E] \<or> gt = lit ''&gt;''" and nb: "0x3E \<notin> set body"
          and ns: "\<not> sublist (lit ''&gt;'') body"
          using "1.IH" by blast
        have "\<not> prefix (lit ''&gt;'') (c # body)"
        proof
          assume "prefix (lit ''&gt;'') (c # body)"
          then have "prefix (lit ''&gt;'') ((c # body) @ gt @ ss)" by (rule prefix_prefix)
          then have "prefix (lit ''&gt;'') u" unfolding Cons cs by simp
          from match_entity_prefix [OF gt_code this] None show False by simp
        qed
        with ns have "\<not> sublist (lit ''&gt;'') (c # body)" by (simp add: sublist_Cons_right)
        with False nb gt cs
        have "u = (c # body) @ gt @ ss \<and> (gt = [0x3E] \<or> gt = lit ''&gt;'') \<and>
            0x3E \<notin> set (c # body) \<and> \<not> sublist (lit ''&gt;'') (c # body) \<and>
            (c # body = [] \<longrightarrow> hd (decode_entities u) = 0x3E)"
          unfolding Cons by simp
        then show ?thesis by blast
      qed
    next
      case (Some n)
      then have n: "0 < n" by (rule match_entity_cases)
      from Some obtain x where r: "decode_entity (take n u) = [x]"
        by (rule match_entity_cases) blast+
      from match_entity_take [OF Some] have code: "take n u \<in> set (map fst ents)" by simp
      have d: "decode_entities u = x # decode_entities (drop n u)"
        using replace_g_Some [of match_entity c cs n decode_entity] Some n r
        unfolding Cons decode_entities_def by simp
      have len: "length (drop n u) < length u" using n Cons by simp
      have u: "u = take n u @ drop n u" by simp
      show ?thesis
      proof (cases "x = 0x3E")
        case True
        with decode_entity_code [OF code] r have "take n u = lit ''&gt;''" by simp
        with u have "u = [] @ lit ''&gt;'' @ drop n u" by simp
        moreover have "hd (decode_entities u) = 0x3E" using d True by simp
        moreover have "lit ''&gt;'' \<noteq> []" by (simp add: lit_def)
        ultimately show ?thesis
          by (intro exI [of _ "[]"] exI [of _ "lit ''&gt;''"] exI [of _ "drop n u"]) simp
      next
        case False
        with g d have "0x3E \<in> set (decode_entities (drop n u))" by simp
        with "1.IH" len obtain body gt ss where rest: "drop n u = body @ gt @ ss"
          and gt: "gt = [0x3E] \<or> gt = lit ''&gt;''" and nb: "0x3E \<notin> set body"
          and ns: "\<not> sublist (lit ''&gt;'') body"
          by blast
        from decode_entity_code [OF code, of body] r False
        have ne: "0x3E \<notin> set (take n u)" and np: "\<not> prefix (lit ''&gt;'') (take n u @ body)"
          by auto
        from sublist_code_append [OF code, of body] np ns
        have ns': "\<not> sublist (lit ''&gt;'') (take n u @ body)" by blast
        have "take n u \<noteq> []" using n Cons by simp
        then have 1: "take n u @ body \<noteq> []" by simp
        have "u = take n u @ body @ gt @ ss" using u rest by metis
        then have 2: "u = (take n u @ body) @ gt @ ss" by simp
        have 3: "0x3E \<notin> set (take n u @ body)" using ne nb by simp
        from 1 2 3 ns' gt
        have "u = (take n u @ body) @ gt @ ss \<and> (gt = [0x3E] \<or> gt = lit ''&gt;'') \<and>
            0x3E \<notin> set (take n u @ body) \<and> \<not> sublist (lit ''&gt;'') (take n u @ body) \<and>
            (take n u @ body = [] \<longrightarrow> hd (decode_entities u) = 0x3E)"
          by blast
        then show ?thesis by blast
      qed
    qed
  qed
qed

lemma has_encoded_tag_mono: "has_encoded_tag u \<Longrightarrow> sublist u t \<Longrightarrow> has_encoded_tag t"
  unfolding has_encoded_tag_def by (blast intro: sublist_trans)

lemma encoded_tag_found:
  assumes "lt = [0x3C] \<or> lt = lit ''&lt;''" "gt = [0x3E] \<or> gt = lit ''&gt;''"
    "body \<noteq> []" "0x3E \<notin> set body" "\<not> sublist (lit ''&gt;'') body"
  shows "has_encoded_tag (lt @ body @ gt @ ss)"
proof -
  have "encoded_tag (lt @ body @ gt)" unfolding encoded_tag_def using assms by blast
  moreover have "sublist (lt @ body @ gt) ((lt @ body @ gt) @ ss)" by (rule sublist_append_rightI)
  ultimately show ?thesis unfolding has_encoded_tag_def by auto
qed

lemma tag_after_decode:
  "occurs match_tag (decode_entities t) \<Longrightarrow> has_encoded_tag t"
proof (induction t rule: length_induct)
  case (1 t)
  note oc = "1.prems"
  show ?case
  proof (cases t)
    case Nil
    with oc show ?thesis by (simp add: decode_entities_def)
  next
    case (Cons c cs)
    have step: "has_encoded_tag t"
      if d: "decode_entities t = x # decode_entities rest" and len: "length rest < length t"
        and t: "t = lt @ rest" and lt: "x = 0x3C \<Longrightarrow> lt = [0x3C] \<or> lt = lit ''&lt;''"
      for x rest lt
    proof -
      from oc consider "x = 0x3C" "decode_entities rest \<noteq> []" "hd (decode_entities rest) \<noteq> 0x3E"
          "0x3E \<in> set (decode_entities rest)"
        | "occurs match_tag (decode_entities rest)"
        unfolding d occurs_tag_Cons by blast
      then show ?thesis
      proof cases
        case 1
        from first_gt [OF 1(4)] 1(3) obtain body gt ss where r: "rest = body @ gt @ ss"
          and gt: "gt = [0x3E] \<or> gt = lit ''&gt;''" and b: "body \<noteq> []" "0x3E \<notin> set body"
          "\<not> sublist (lit ''&gt;'') body"
          by blast
        from encoded_tag_found [OF lt [OF 1(1)] gt b, of ss] show ?thesis unfolding t r .
      next
        case 2
        with "1.IH" len have "has_encoded_tag rest" by blast
        moreover have "sublist rest t" unfolding t by simp
        ultimately show ?thesis by (rule has_encoded_tag_mono)
      qed
    qed
    show ?thesis
    proof (cases "match_entity t")
      case None
      then have d: "decode_entities t = c # decode_entities cs"
        unfolding Cons decode_entities_def by simp
      show ?thesis
        by (rule step [OF d, of "[c]"]) (simp_all add: Cons)
    next
      case (Some n)
      then have n: "0 < n" by (rule match_entity_cases)
      from Some obtain x where r: "decode_entity (take n t) = [x]"
        by (rule match_entity_cases) blast+
      from match_entity_take [OF Some] have code: "take n t \<in> set (map fst ents)" by simp
      have d: "decode_entities t = x # decode_entities (drop n t)"
        using replace_g_Some [of match_entity c cs n decode_entity] Some n r
        unfolding Cons decode_entities_def by simp
      have len: "length (drop n t) < length t" using n Cons by simp
      show ?thesis
      proof (rule step [OF d len, of "take n t"])
        show "t = take n t @ drop n t" by simp
        assume "x = 0x3C"
        with decode_entity_code [OF code] r show "take n t = [0x3C] \<or> take n t = lit ''&lt;''"
          by simp
      qed
    qed
  qed
qed

lemma htmlToText_sources:
  "\<not> has_tag (strip_tags html) \<and>
   (has_tag (htmlToText html) \<longrightarrow> has_encoded_tag (strip_tags html)) \<and>
   (has_entity (htmlToText html) \<longrightarrow> has_encoded_entity (strip_tags html))"
proof (intro conjI impI)
  show "\<not> has_tag (strip_tags html)"
    unfolding has_tag_iff by (rule no_tag_strip_tags)
next
  assume "has_tag (htmlToText html)"
  then have ne: "html \<noteq> []" and "occurs match_tag (tidy_lines (decode_entities (strip_tags html)))"
    unfolding has_tag_iff htmlToText_def by (auto split: if_splits)
  with no_tag_tidy have "occurs match_tag (decode_entities (strip_tags html))" by blast
  then show "has_encoded_tag (strip_tags html)" by (rule tag_after_decode)
next
  assume "has_entity (htmlToText html)"
  then obtain e where e: "e \<in> set (map fst ents)" and s: "sublist e (htmlToText html)"
    unfolding has_entity_def by blast
  from entity_chars [OF e] have c: "e \<noteq> []" "0x0A \<notin> set e" by auto
  with s have "html \<noteq> []" by (auto simp: htmlToText_def split: if_splits)
  with s have "sublist e (tidy_lines (decode_entities (strip_tags html)))"
    by (simp add: htmlToText_def)
  from sublist_tidy [OF c this] have "sublist e (decode_entities (strip_tags html))" .
  from entity_after_decode [OF e this] e show "has_encoded_entity (strip_tags html)"
    unfolding has_encoded_entity_def by blast
qed

lemma replace_g_append:
  assumes same: "\<And>a'. a' \<noteq> [] \<Longrightarrow> suffix a' a \<Longrightarrow> m (a' @ u) = m a'"
    and fit: "\<And>a' n. m a' = Some n \<Longrightarrow> 0 < n \<and> n \<le> length a'"
  shows "replace_g m r 0 (a @ u) = replace_g m r 0 a @ replace_g m r 0 u"
  using same
proof (induction a rule: length_induct)
  case (1 a)
  show ?case
  proof (cases a)
    case Nil
    then show ?thesis by simp
  next
    case (Cons c cs)
    have ma: "m (a @ u) = m a" using "1.prems" [of a] Cons by simp
    show ?thesis
    proof (cases "m a")
      case None
      have "replace_g m r 0 (cs @ u) = replace_g m r 0 cs @ replace_g m r 0 u"
      proof (rule "1.IH" [rule_format])
        show "length cs < length a" using Cons by simp
        fix a' assume "a' \<noteq> []" "suffix a' cs"
        then show "m (a' @ u) = m a'" using "1.prems" [of a'] Cons by (simp add: suffix_Cons)
      qed
      with None ma show ?thesis unfolding Cons by simp
    next
      case (Some n)
      from fit [OF Some] have n: "0 < n" "n \<le> length a" by auto
      have "replace_g m r 0 (drop n a @ u) = replace_g m r 0 (drop n a) @ replace_g m r 0 u"
      proof (rule "1.IH" [rule_format])
        show "length (drop n a) < length a" using n Cons by simp
        fix a' assume "a' \<noteq> []" "suffix a' (drop n a)"
        then have "suffix a' a" by (meson suffix_drop suffix_order.trans)
        with \<open>a' \<noteq> []\<close> show "m (a' @ u) = m a'" by (rule "1.prems")
      qed
      moreover have "replace_g m r 0 (a @ u) = r (take n (a @ u)) @ replace_g m r 0 (drop n (a @ u))"
        using replace_g_Some [of m c "cs @ u" n r] Some ma n unfolding Cons by simp
      moreover have "replace_g m r 0 a = r (take n a) @ replace_g m r 0 (drop n a)"
        using replace_g_Some [of m c cs n r] Some n unfolding Cons by simp
      ultimately show ?thesis using n by simp
    qed
  qed
qed

lemma entity_prefix_append:
  assumes e: "e \<in> set (map fst ents)" and a: "a \<noteq> []"
    and u: "u = [] \<or> hd u \<in> {0x26, 0x3C, 0x3E}"
  shows "prefix e (a @ u) \<longleftrightarrow> prefix e a"
proof
  assume "prefix e (a @ u)"
  then have "prefix e a \<or> (\<exists>us. e = a @ us \<and> prefix us u)" by (simp add: prefix_append)
  then show "prefix e a"
  proof (elim disjE exE conjE)
    fix us assume eq: "e = a @ us" and p: "prefix us u"
    show "prefix e a"
    proof (cases "us = []")
      case True
      with eq show ?thesis by simp
    next
      case False
      with p have "u \<noteq> []" "hd us = hd u" by (auto simp: prefix_def)
      with eq a False have "hd u \<in> set (tl e)" by (cases a; cases us) auto
      with entity_shape [OF e] u \<open>u \<noteq> []\<close> show ?thesis by auto
    qed
  qed
qed (rule prefix_prefix)

lemma match_entity_append:
  assumes "a \<noteq> []" "u = [] \<or> hd u \<in> {0x26, 0x3C, 0x3E}"
  shows "match_entity (a @ u) = match_entity a"
proof -
  have "find (\<lambda>e. prefix e (a @ u)) (map fst ents) = find (\<lambda>e. prefix e a) (map fst ents)"
    by (rule find_cong) (simp_all add: entity_prefix_append [OF _ assms])
  then show ?thesis by (simp add: match_entity_def)
qed

lemma match_entity_fit: "match_entity a = Some n \<Longrightarrow> 0 < n \<and> n \<le> length a"
proof -
  assume m: "match_entity a = Some n"
  then have "0 < n" by (rule match_entity_cases)
  moreover from match_entity_take [OF m] have "n = length (take n a)" by simp
  then have "n \<le> length a" by simp
  ultimately show ?thesis by simp
qed

lemma decode_append:
  "u = [] \<or> hd u \<in> {0x26, 0x3C, 0x3E} \<Longrightarrow>
     decode_entities (a @ u) = decode_entities a @ decode_entities u"
  unfolding decode_entities_def
  by (rule replace_g_append) (simp_all add: match_entity_append match_entity_fit)

lemma decode_plain: "0x26 \<notin> set w \<Longrightarrow> decode_entities (w @ v) = w @ decode_entities v"
proof (induction w)
  case Nil
  show ?case by simp
next
  case (Cons c w)
  have "match_entity (c # w @ v) = None"
  proof (cases "match_entity (c # w @ v)")
    case (Some n)
    from match_entity_head [OF Some] Cons.prems show ?thesis by simp
  qed simp
  with Cons show ?case by (simp add: decode_entities_def)
qed

lemma decode_code:
  "decode_entities (lit ''&lt;'' @ v) = 0x3C # decode_entities v"
  "decode_entities (lit ''&gt;'' @ v) = 0x3E # decode_entities v"
  "decode_entities (lit ''&amp;'' @ v) = 0x26 # decode_entities v"
  by (simp_all add: decode_entities_def lit_def match_entity_def ents_def decode_entity_def
        replace_g_skip [of _ _ "Suc n" for n])

lemma replace_g_nonempty:
  assumes "\<And>u n. m u = Some n \<Longrightarrow> r (take n u) \<noteq> []"
  shows "t \<noteq> [] \<Longrightarrow> replace_g m r 0 t \<noteq> []"
  using assms by (cases t) (auto split: option.splits)

lemma decode_nonempty: "t \<noteq> [] \<Longrightarrow> decode_entities t \<noteq> []"
  unfolding decode_entities_def
  by (rule replace_g_nonempty) (erule match_entity_cases, simp_all)

lemma decode_no_gt:
  assumes "0x3E \<notin> set body" "\<not> sublist (lit ''&gt;'') body"
  shows "0x3E \<notin> set (decode_entities body)"
  unfolding decode_entities_def
proof (rule notin_set_replace_g [OF _ assms(1)])
  show "repl_avoids match_entity decode_entity {0x3E} body"
    unfolding repl_avoids_def
  proof (intro allI impI)
    fix u n assume u: "suffix u body" and m: "match_entity u = Some n"
    from match_entity_take [OF m] have code: "take n u \<in> set (map fst ents)"
      and p: "prefix (take n u) u" by auto
    have "decode_entity (take n u) \<noteq> [0x3E]"
    proof
      assume "decode_entity (take n u) = [0x3E]"
      with decode_entity_code [OF code] have "take n u = lit ''&gt;''" by simp
      with p u have "sublist (lit ''&gt;'') body" by (auto simp: sublist_altdef')
      with assms(2) show False ..
    qed
    with m show "0 < n \<and> decode_entity (take n u) \<noteq> [] \<and>
        set (decode_entity (take n u)) \<inter> {0x3E} = {}"
      by (cases rule: match_entity_cases) auto
  qed
qed

lemma has_tagI: "body \<noteq> [] \<Longrightarrow> 0x3E \<notin> set body \<Longrightarrow> has_tag (ps @ 0x3C # body @ 0x3E # ss)"
proof -
  assume "body \<noteq> []" "0x3E \<notin> set body"
  then have "is_tag (0x3C # body @ [0x3E])" unfolding is_tag_def by blast
  moreover have "sublist (0x3C # body @ [0x3E]) (ps @ (0x3C # body @ [0x3E]) @ ss)"
    by (rule sublist_appendI)
  ultimately show ?thesis unfolding has_tag_def by auto
qed

lemma has_tagE:
  assumes "has_tag x"
  obtains ps body ss where "x = ps @ 0x3C # body @ 0x3E # ss" "body \<noteq> []" "0x3E \<notin> set body"
proof -
  from assms obtain w ps ss where "is_tag w" "x = ps @ w @ ss"
    unfolding has_tag_def sublist_def by blast
  then obtain body where "x = ps @ (0x3C # body @ [0x3E]) @ ss" "body \<noteq> []" "0x3E \<notin> set body"
    unfolding is_tag_def by blast
  then show ?thesis using that by simp
qed

lemma decode_bracket:
  "lt = [0x3C] \<or> lt = lit ''&lt;'' \<Longrightarrow> decode_entities (lt @ v) = 0x3C # decode_entities v"
  "gt = [0x3E] \<or> gt = lit ''&gt;'' \<Longrightarrow> decode_entities (gt @ v) = 0x3E # decode_entities v"
  using decode_plain [of "[0x3C]" v] decode_plain [of "[0x3E]" v] by (auto simp: decode_code)

lemma bracket_hd:
  "lt = [0x3C] \<or> lt = lit ''&lt;'' \<Longrightarrow> hd (lt @ v) \<in> {0x26, 0x3C, 0x3E}"
  "gt = [0x3E] \<or> gt = lit ''&gt;'' \<Longrightarrow> hd (gt @ v) \<in> {0x26, 0x3C, 0x3E}"
  by (auto simp: lit_def)

lemma encoded_tag_decoded: "has_encoded_tag t \<Longrightarrow> has_tag (decode_entities t)"
proof -
  assume "has_encoded_tag t"
  then obtain ps ss lt body gt where t: "t = ps @ (lt @ body @ gt) @ ss"
    and lt: "lt = [0x3C] \<or> lt = lit ''&lt;''" and gt: "gt = [0x3E] \<or> gt = lit ''&gt;''"
    and b: "body \<noteq> []" "0x3E \<notin> set body" "\<not> sublist (lit ''&gt;'') body"
    unfolding has_encoded_tag_def encoded_tag_def sublist_def by blast
  have "decode_entities t = decode_entities ps @ decode_entities (lt @ body @ gt @ ss)"
    unfolding t using decode_append [of "lt @ body @ gt @ ss" ps] bracket_hd(1) [OF lt] by simp
  also have "decode_entities (lt @ body @ gt @ ss) = 0x3C # decode_entities (body @ gt @ ss)"
    using lt by (rule decode_bracket)
  also have "decode_entities (body @ gt @ ss) = decode_entities body @ decode_entities (gt @ ss)"
    using decode_append [of "gt @ ss" body] bracket_hd(2) [OF gt] by simp
  also have "decode_entities (gt @ ss) = 0x3E # decode_entities ss"
    using gt by (rule decode_bracket)
  finally have "decode_entities t =
      decode_entities ps @ 0x3C # decode_entities body @ 0x3E # decode_entities ss" .
  moreover have "decode_entities body \<noteq> []" using b(1) by (rule decode_nonempty)
  moreover have "0x3E \<notin> set (decode_entities body)" using b(2,3) by (rule decode_no_gt)
  ultimately show ?thesis by (simp add: has_tagI)
qed

lemma encoded_entity_decoded: "has_encoded_entity t \<Longrightarrow> has_entity (decode_entities t)"
proof -
  assume "has_encoded_entity t"
  then obtain e ps ss where e: "e \<in> set (map fst ents)" and t: "t = ps @ (lit ''&amp;'' @ tl e) @ ss"
    unfolding has_encoded_entity_def sublist_def by blast
  from entity_shape [OF e] obtain e' where eh: "e = 0x26 # e'" and tl: "0x26 \<notin> set e'"
    by (cases e) auto
  have "decode_entities t = decode_entities ps @ decode_entities (lit ''&amp;'' @ e' @ ss)"
    unfolding t eh using decode_append [of "lit ''&amp;'' @ e' @ ss" ps] by (simp add: lit_def)
  also have "decode_entities (lit ''&amp;'' @ e' @ ss) = 0x26 # decode_entities (e' @ ss)"
    by (rule decode_code)
  also have "decode_entities (e' @ ss) = e' @ decode_entities ss"
    using tl by (rule decode_plain)
  finally have "decode_entities t = decode_entities ps @ e @ decode_entities ss"
    unfolding eh by simp
  then have "sublist e (decode_entities t)" by simp
  with e show ?thesis unfolding has_entity_def by blast
qed

lemma sublist_dropWhile_keep:
  "w \<noteq> [] \<Longrightarrow> \<not> P (hd w) \<Longrightarrow> sublist w x \<Longrightarrow> sublist w (dropWhile P x)"
proof (induction x)
  case Nil
  then show ?case by simp
next
  case (Cons c cs)
  show ?case
  proof (cases "P c")
    case True
    with Cons.prems have "\<not> prefix w (c # cs)" by (cases w) auto
    with Cons.prems have "sublist w cs" by (simp add: sublist_Cons_right)
    with Cons True show ?thesis by simp
  next
    case False
    with Cons.prems show ?thesis by simp
  qed
qed

lemma sublist_trim_keep:
  assumes "w \<noteq> []" "\<not> is_space (hd w)" "\<not> is_space (last w)" "sublist w x"
  shows "sublist w (trim x)"
proof -
  have "sublist w (dropWhile is_space x)" using assms(1,2,4) by (rule sublist_dropWhile_keep)
  then have "sublist (rev w) (rev (dropWhile is_space x))" by simp
  moreover have "rev w \<noteq> []" "\<not> is_space (hd (rev w))"
    using assms(1,3) by (simp_all add: hd_rev)
  ultimately have "sublist (rev w) (dropWhile is_space (rev (dropWhile is_space x)))"
    by (intro sublist_dropWhile_keep)
  then show ?thesis unfolding trim_def by (simp add: sublist_rev_left)
qed

lemma sublist_lines_keep:
  assumes "w \<noteq> []" "\<not> is_space (hd w)" "\<not> is_space (last w)" "0x0A \<notin> set w" "sublist w x"
  shows "sublist w (join 0x0A (map trim (split_on 0x0A x)))"
proof -
  from assms(5) have "sublist w (join 0x0A (split_on 0x0A x))" by (simp add: join_split_on)
  from sublist_join_line [OF assms(1,4) this] obtain l where l: "l \<in> set (split_on 0x0A x)"
    and "sublist w l" by blast
  with assms have "sublist w (trim l)" by (intro sublist_trim_keep)
  moreover have "sublist (trim l) (join 0x0A (map trim (split_on 0x0A x)))"
    using l by (intro sublist_join_member) simp
  ultimately show ?thesis by (rule sublist_trans)
qed

text \<open>Collapsing runs of line feeds.\<close>

lemma match_nl3_head: "match_nl3 (c # cs) = Some n \<Longrightarrow> c = 0x0A"
  using match_nl3_Some [of "c # cs" n] by simp

lemma match_nl3_append:
  assumes "u = [] \<or> hd u \<noteq> 0x0A"
  shows "match_nl3 (a @ u) = match_nl3 a"
proof -
  have "takeWhile (\<lambda>c. c = 0x0A) (a @ u) = takeWhile (\<lambda>c. c = 0x0A) a"
  proof (induction a)
    case Nil
    show ?case using assms by (cases u) auto
  next
    case (Cons c a)
    then show ?case by simp
  qed
  then show ?thesis by (simp add: match_nl3_def)
qed

lemma match_nl3_fit: "match_nl3 a = Some n \<Longrightarrow> 0 < n \<and> n \<le> length a"
  using length_takeWhile_le [of "\<lambda>c. c = 0x0A" a]
  by (auto simp: match_nl3_def Let_def split: if_splits)

lemma collapse_append:
  "u = [] \<or> hd u \<noteq> 0x0A \<Longrightarrow>
     replace_g match_nl3 r 0 (a @ u) = replace_g match_nl3 r 0 a @ replace_g match_nl3 r 0 u"
  by (rule replace_g_append) (simp_all add: match_nl3_append match_nl3_fit)

lemma collapse_plain:
  "0x0A \<notin> set w \<Longrightarrow> replace_g match_nl3 r 0 (w @ v) = w @ replace_g match_nl3 r 0 v"
proof (induction w)
  case Nil
  show ?case by simp
next
  case (Cons c w)
  have "match_nl3 (c # w @ v) = None"
  proof (cases "match_nl3 (c # w @ v)")
    case (Some n)
    from match_nl3_head [OF Some] Cons.prems show ?thesis by simp
  qed simp
  with Cons show ?case by simp
qed

lemma sublist_collapse_keep:
  assumes "w \<noteq> []" "0x0A \<notin> set w" "sublist w x"
  shows "sublist w (replace_g match_nl3 (\<lambda>_. [0x0A, 0x0A]) 0 x)"
proof -
  from assms(3) obtain ps ss where x: "x = ps @ w @ ss" unfolding sublist_def by blast
  have "hd (w @ ss) \<noteq> 0x0A" using assms(1,2) by (cases w) auto
  then have "replace_g match_nl3 (\<lambda>_. [0x0A, 0x0A]) 0 x =
      replace_g match_nl3 (\<lambda>_. [0x0A, 0x0A]) 0 ps @ w @ replace_g match_nl3 (\<lambda>_. [0x0A, 0x0A]) 0 ss"
    unfolding x by (simp add: collapse_append collapse_plain [OF assms(2)])
  then show ?thesis by simp
qed

lemma has_tag_collapse:
  assumes "has_tag x"
  shows "has_tag (replace_g match_nl3 (\<lambda>_. [0x0A, 0x0A]) 0 x)"
proof -
  let ?C = "replace_g match_nl3 (\<lambda>_. [0x0A, 0x0A]) 0"
  from assms obtain ps body ss where x: "x = ps @ 0x3C # body @ 0x3E # ss"
    and b: "body \<noteq> []" "0x3E \<notin> set body" by (rule has_tagE)
  have "?C x = ?C ps @ ?C ([0x3C] @ body @ 0x3E # ss)"
    unfolding x using collapse_append [of "0x3C # body @ 0x3E # ss" _ ps] by simp
  also have "?C ([0x3C] @ body @ 0x3E # ss) = [0x3C] @ ?C (body @ 0x3E # ss)"
    by (rule collapse_plain) simp
  also have "?C (body @ 0x3E # ss) = ?C body @ ?C ([0x3E] @ ss)"
    using collapse_append [of "0x3E # ss" _ body] by simp
  also have "?C ([0x3E] @ ss) = [0x3E] @ ?C ss"
    by (rule collapse_plain) simp
  finally have "?C x = ?C ps @ 0x3C # ?C body @ 0x3E # ?C ss" by simp
  moreover have "?C body \<noteq> []" using b(1) by (intro replace_g_nonempty) simp_all
  moreover have "0x3E \<notin> set (?C body)"
    using b(2) by (intro notin_set_replace_g repl_avoids_nl3) simp_all
  ultimately show ?thesis by (simp add: has_tagI)
qed

lemma split_on_append_sep: "split_on d (u @ d # v) = split_on d u @ split_on d v"
proof (induction u)
  case Nil
  show ?case by simp
next
  case (Cons c u)
  obtain l ls where s: "split_on d u = l # ls"
    using split_on_nonempty [of d u] by (cases "split_on d u") auto
  with Cons show ?case by simp
qed

lemma join_append:
  "ls1 \<noteq> [] \<Longrightarrow> ls2 \<noteq> [] \<Longrightarrow> join d (ls1 @ ls2) = join d ls1 @ d # join d ls2"
proof (induction d ls1 rule: join.induct)
  case (2 d l)
  then show ?case by (cases ls2) simp_all
qed simp_all

lemma lines_append:
  "join 0x0A (map trim (split_on 0x0A (u @ 0x0A # v))) =
     join 0x0A (map trim (split_on 0x0A u)) @ 0x0A # join 0x0A (map trim (split_on 0x0A v))"
  by (simp add: split_on_append_sep join_append split_on_nonempty)

lemma dels_append_split:
  "dels P (a @ b) y \<Longrightarrow> \<exists>y1 y2. y = y1 @ y2 \<and> dels P a y1 \<and> dels P b y2"
proof (induction a arbitrary: y)
  case Nil
  then have "y = [] @ y \<and> dels P [] [] \<and> dels P b y" by (simp add: dels_Nil)
  then show ?case by blast
next
  case (Cons c a)
  from Cons.prems have "dels P (c # (a @ b)) y" by simp
  then show ?case
  proof (cases rule: dels.cases)
    case (dels_Keep y')
    from Cons.IH [OF dels_Keep(2)] obtain y1 y2 where "y' = y1 @ y2" "dels P a y1" "dels P b y2"
      by blast
    with dels_Keep(1) have "y = (c # y1) @ y2 \<and> dels P (c # a) (c # y1) \<and> dels P b y2"
      by (simp add: dels.dels_Keep)
    then show ?thesis by blast
  next
    case dels_Drop
    from Cons.IH [OF dels_Drop(2)] obtain y1 y2 where "y = y1 @ y2" "dels P a y1" "dels P b y2"
      by blast
    with dels_Drop(1) have "y = y1 @ y2 \<and> dels P (c # a) y1 \<and> dels P b y2"
      by (simp add: dels.dels_Drop)
    then show ?thesis by blast
  qed
qed

lemma not_space_LT: "\<not> is_space 0x3C"
  by (simp add: is_space_def)

lemma has_tag_lines:
  assumes "has_tag x"
  shows "has_tag (join 0x0A (map trim (split_on 0x0A x)))"
proof -
  let ?J = "\<lambda>x. join 0x0A (map trim (split_on 0x0A x))"
  from assms obtain ps body ss where x: "x = ps @ 0x3C # body @ 0x3E # ss"
    and b: "body \<noteq> []" "0x3E \<notin> set body" by (rule has_tagE)
  show ?thesis
  proof (cases "0x0A \<in> set body")
    case False
    let ?w = "0x3C # body @ [0x3E]"
    have "sublist ?w (ps @ ?w @ ss)" by (rule sublist_appendI)
    then have "sublist ?w x" unfolding x by simp
    moreover have "0x0A \<notin> set ?w" using False by simp
    ultimately have "sublist ?w (?J x)"
      by (intro sublist_lines_keep) (simp_all add: not_space_LT not_space_GT)
    moreover have "is_tag ?w" unfolding is_tag_def using b by blast
    ultimately show ?thesis unfolding has_tag_def by blast
  next
    case True
    then obtain b1 b2 where body: "body = b1 @ 0x0A # b2" by (auto simp: in_set_conv_decomp)
    let ?u = "ps @ 0x3C # b1" and ?v = "b2 @ 0x3E # ss"
    have "x = ?u @ 0x0A # ?v" unfolding x body by simp
    then have J: "?J x = ?J ?u @ 0x0A # ?J ?v" by (simp only: lines_append)
    from dels_append_split [OF dels_lines [of ?u]] obtain y1 y2 where
      u: "?J ?u = y1 @ y2" and k1: "dels is_space (0x3C # b1) y2" by blast
    from dels_Cons_kept [OF k1 not_space_LT] obtain y2' where y2: "y2 = 0x3C # y2'"
      and d1: "dels is_space b1 y2'" by blast
    from dels_append_split [OF dels_lines [of ?v]] obtain z1 z2 where
      v: "?J ?v = z1 @ z2" and d2: "dels is_space b2 z1" and k2: "dels is_space (0x3E # ss) z2" by blast
    from dels_Cons_kept [OF k2 not_space_GT] obtain z2' where z2: "z2 = 0x3E # z2'" by blast
    have eq: "?J x = y1 @ 0x3C # (y2' @ 0x0A # z1) @ 0x3E # z2'"
      unfolding J u v y2 z2 by simp
    have "0x3E \<notin> set (y2' @ 0x0A # z1)"
      using dels_set [OF d1] dels_set [OF d2] b(2) unfolding body by auto
    moreover have "y2' @ 0x0A # z1 \<noteq> []" by simp
    ultimately have "has_tag (y1 @ 0x3C # (y2' @ 0x0A # z1) @ 0x3E # z2')" by (rule has_tagI [rotated])
    then show ?thesis unfolding eq .
  qed
qed

lemma has_tag_trim: "has_tag x \<Longrightarrow> has_tag (trim x)"
proof -
  assume "has_tag x"
  then obtain ps body ss where x: "x = ps @ 0x3C # body @ 0x3E # ss"
    and b: "body \<noteq> []" "0x3E \<notin> set body" by (rule has_tagE)
  let ?w = "0x3C # body @ [0x3E]"
  have "sublist ?w (ps @ ?w @ ss)" by (rule sublist_appendI)
  then have "sublist ?w x" unfolding x by simp
  then have "sublist ?w (trim x)"
    by (intro sublist_trim_keep) (simp_all add: not_space_LT not_space_GT)
  moreover have "is_tag ?w" unfolding is_tag_def using b by blast
  ultimately show ?thesis unfolding has_tag_def by blast
qed

lemma has_tag_tidy: "has_tag x \<Longrightarrow> has_tag (tidy_lines x)"
  unfolding tidy_lines_def by (intro has_tag_trim has_tag_collapse has_tag_lines)

lemma entity_no_space:
  "e \<in> set (map fst ents) \<Longrightarrow> \<not> is_space (hd e) \<and> \<not> is_space (last e)"
  by (auto simp: ents_def lit_def is_space_def)

lemma has_entity_tidy: "has_entity x \<Longrightarrow> has_entity (tidy_lines x)"
proof -
  assume "has_entity x"
  then obtain e where e: "e \<in> set (map fst ents)" and s: "sublist e x"
    unfolding has_entity_def by blast
  from entity_chars [OF e] have c: "e \<noteq> []" "0x0A \<notin> set e" by auto
  from entity_no_space [OF e] have sp: "\<not> is_space (hd e)" "\<not> is_space (last e)" by auto
  have "sublist e (join 0x0A (map trim (split_on 0x0A x)))"
    using c(1) sp c(2) s by (rule sublist_lines_keep)
  then have "sublist e (replace_g match_nl3 (\<lambda>_. [0x0A, 0x0A]) 0 (join 0x0A (map trim (split_on 0x0A x))))"
    using c by (intro sublist_collapse_keep)
  then have "sublist e (tidy_lines x)"
    unfolding tidy_lines_def using c(1) sp by (intro sublist_trim_keep)
  with e show ?thesis unfolding has_entity_def by blast
qed

lemma strip_tags_Nil: "strip_tags [] = []"
  by (simp add: strip_tags_def)

lemma has_encoded_tag_Nil: "\<not> has_encoded_tag []"
  unfolding has_encoded_tag_def encoded_tag_def by auto

lemma has_encoded_entity_Nil: "\<not> has_encoded_entity []"
  unfolding has_encoded_entity_def by (auto simp: lit_def)

text \<open>
  C7 (amended). For every raw markup input, the text left by the five tag replacements
  contains no markup tag. The output of \<open>htmlToText\<close> contains a markup tag exactly
  when that text contains an encoded tag (\<open><\<close> or \<open>&lt;\<close>, a non-empty text
  without \<open>>\<close> and \<open>&gt;\<close>, then \<open>>\<close> or \<open>&gt;\<close>), and it contains one of
  the six entity codes exactly when that text contains \<open>&amp;\<close> directly followed by
  the rest of a code (\<open>nbsp;\<close>, \<open>amp;\<close>, \<open>lt;\<close>, \<open>gt;\<close>, \<open>quot;\<close>,
  \<open>#39;\<close>).
\<close>

theorem htmlToText_clean:
  "\<not> has_tag (strip_tags html) \<and>
   (has_tag (htmlToText html) \<longleftrightarrow> has_encoded_tag (strip_tags html)) \<and>
   (has_entity (htmlToText html) \<longleftrightarrow> has_encoded_entity (strip_tags html))"
proof (intro conjI iffI)
  show "\<not> has_tag (strip_tags html)"
    unfolding has_tag_iff by (rule no_tag_strip_tags)
next
  assume "has_tag (htmlToText html)"
  with htmlToText_sources show "has_encoded_tag (strip_tags html)" by blast
next
  assume "has_entity (htmlToText html)"
  with htmlToText_sources show "has_encoded_entity (strip_tags html)" by blast
next
  assume a: "has_encoded_tag (strip_tags html)"
  then have "html \<noteq> []" using strip_tags_Nil has_encoded_tag_Nil by metis
  with has_tag_tidy [OF encoded_tag_decoded [OF a]] show "has_tag (htmlToText html)"
    by (simp add: htmlToText_def)
next
  assume a: "has_encoded_entity (strip_tags html)"
  then have "html \<noteq> []" using strip_tags_Nil has_encoded_entity_Nil by metis
  with has_entity_tidy [OF encoded_entity_decoded [OF a]] show "has_entity (htmlToText html)"
    by (simp add: htmlToText_def)
qed

lemmas eval_htmlToText =
  htmlToText_def strip_tags_def decode_entities_def tidy_lines_def trim_def lit_def
  match_lit_ci_def eq_ci_def match_entity_def decode_entity_def ents_def match_nl3_def
  is_space_def Let_def

text \<open>
  Entities are decoded once, after the tags are stripped: \<open>&lt;b&gt;\<close> becomes the
  tag \<open><b>\<close> and \<open>&amp;amp;\<close> becomes the code \<open>&amp;\<close>, and both
  stay in the output.
\<close>

theorem htmlToText_clean_counterexample:
  "htmlToText (lit ''&lt;b&gt; &amp;amp;'') = lit ''<b> &amp;'' \<and>
   has_tag (lit ''<b> &amp;'') \<and> has_entity (lit ''<b> &amp;'')"
proof (intro conjI)
  show "htmlToText (lit ''&lt;b&gt; &amp;amp;'') = lit ''<b> &amp;''"
    by (simp add: eval_htmlToText)
  show "has_tag (lit ''<b> &amp;'')"
    unfolding has_tag_iff by (simp add: lit_def)
  show "has_entity (lit ''<b> &amp;'')"
    by (simp add: has_entity_def ents_def lit_def sublist_code)
qed

lemma has_encoded_tag_closing:
  "has_encoded_tag t \<Longrightarrow> 0x3E \<in> set t \<or> sublist (lit ''&gt;'') t"
proof -
  assume "has_encoded_tag t"
  then obtain lt body gt where s: "sublist (lt @ body @ gt) t"
    and gt: "gt = [0x3E] \<or> gt = lit ''&gt;''"
    unfolding has_encoded_tag_def encoded_tag_def by blast
  have "sublist gt (lt @ body @ gt)" by (metis append.assoc sublist_append_leftI)
  from this s have g: "sublist gt t" by (rule sublist_trans)
  from gt show ?thesis
  proof
    assume "gt = [0x3E]"
    with g have "set [0x3E] \<subseteq> set t" by (auto dest: set_mono_sublist)
    then show ?thesis by simp
  next
    assume "gt = lit ''&gt;''"
    with g show ?thesis by simp
  qed
qed

theorem htmlToText_clean_witness:
  "htmlToText (lit ''&lt;i&gt;&amp;gt;'') = lit ''<i>&gt;'' \<and>
   has_tag (lit ''<i>&gt;'') \<and> has_encoded_tag (strip_tags (lit ''&lt;i&gt;&amp;gt;'')) \<and>
   has_entity (lit ''<i>&gt;'') \<and> has_encoded_entity (strip_tags (lit ''&lt;i&gt;&amp;gt;'')) \<and>
   \<not> has_encoded_entity (strip_tags (lit ''Q&amp;A'')) \<and>
   \<not> has_entity (htmlToText (lit ''Q&amp;A'')) \<and>
   \<not> has_encoded_tag (strip_tags (lit ''1 &lt; 2'')) \<and>
   \<not> has_tag (htmlToText (lit ''1 &lt; 2''))"
proof -
  have h: "htmlToText (lit ''&lt;i&gt;&amp;gt;'') = lit ''<i>&gt;''"
    by (simp add: eval_htmlToText)
  have t: "has_tag (lit ''<i>&gt;'')"
    unfolding has_tag_iff by (simp add: lit_def)
  have e: "has_entity (lit ''<i>&gt;'')"
    by (simp add: has_entity_def ents_def lit_def sublist_code)
  have q: "\<not> has_encoded_entity (strip_tags (lit ''Q&amp;A''))"
    by (simp add: has_encoded_entity_def eval_htmlToText sublist_code)
  have "strip_tags (lit ''1 &lt; 2'') = lit ''1 &lt; 2''"
    by (simp add: eval_htmlToText)
  moreover have "0x3E \<notin> set (lit ''1 &lt; 2'') \<and> \<not> sublist (lit ''&gt;'') (lit ''1 &lt; 2'')"
    by (simp add: lit_def sublist_code)
  ultimately have l: "\<not> has_encoded_tag (strip_tags (lit ''1 &lt; 2''))"
    using has_encoded_tag_closing by metis
  show ?thesis
    using htmlToText_clean [of "lit ''&lt;i&gt;&amp;gt;''"] htmlToText_clean [of "lit ''Q&amp;A''"]
      htmlToText_clean [of "lit ''1 &lt; 2''"] t e q l
    unfolding h by blast
qed

end
